theory Spec2Isabelle
  imports Main
begin

section \<open>Strings as the program reads them\<close>

text \<open>
  The program works on Python \<open>str\<close> values. A \<^typ>\<open>string\<close> here is the list of the
  code points of such a value, each below 256. The functions of this section are the
  string methods \<open>app.py\<close> calls (\<open>strip\<close>, \<open>split\<close>, \<open>startswith\<close>, \<open>endswith\<close>,
  \<open>join\<close>, \<open>readlines\<close>, the decimal form of a length), with the behaviour CPython
  documents for them.
\<close>

definition LF :: char where
  "LF = CHR 0x0A"

definition CR :: char where
  "CR = CHR 0x0D"

text \<open>
  \<open>str.isspace\<close> on one character: tab, line feed, vertical tab, form feed, carriage
  return, the four separators 0x1C to 0x1F, the space, NEL (0x85) and the no-break space
  (0xA0).
\<close>

definition isspace :: "char \<Rightarrow> bool" where
  "isspace c = (c \<in> set [CHR 0x09, CHR 0x0A, CHR 0x0B, CHR 0x0C, CHR 0x0D,
                         CHR 0x1C, CHR 0x1D, CHR 0x1E, CHR 0x1F, CHR 0x20,
                         CHR 0x85, CHR 0xA0])"

text \<open>\<open>s.strip()\<close>: the whitespace at both ends is removed.\<close>

definition str_strip :: "string \<Rightarrow> string" where
  "str_strip s = rev (dropWhile isspace (rev (dropWhile isspace s)))"

text \<open>
  \<open>s.split()\<close> with no separator: the maximal runs of characters that are not
  whitespace, in order; no empty token. \<open>cur\<close> is the token being read.
\<close>

fun split_aux :: "string \<Rightarrow> string \<Rightarrow> string list" where
  "split_aux cur [] = (if cur = [] then [] else [cur])"
| "split_aux cur (c # cs) =
     (if isspace c then (if cur = [] then split_aux [] cs else cur # split_aux [] cs)
      else split_aux (cur @ [c]) cs)"

definition str_split :: "string \<Rightarrow> string list" where
  "str_split s = split_aux [] s"

definition startswith :: "string \<Rightarrow> string \<Rightarrow> bool" where
  "startswith s p = (take (length p) s = p)"

definition endswith :: "string \<Rightarrow> string \<Rightarrow> bool" where
  "endswith s p = (length p \<le> length s \<and> drop (length s - length p) s = p)"

text \<open>\<open>sep.join(xs)\<close>.\<close>

fun join :: "string \<Rightarrow> string list \<Rightarrow> string" where
  "join sep [] = []"
| "join sep [x] = x"
| "join sep (x # y # ys) = x @ sep @ join sep (y # ys)"

text \<open>The decimal form of a natural number, as an f-string prints \<open>len(...)\<close>.\<close>

fun str_nat :: "nat \<Rightarrow> string" where
  "str_nat n =
     (if n < 10 then [''0123456789'' ! n]
      else str_nat (n div 10) @ [''0123456789'' ! (n mod 10)])"

declare str_nat.simps [simp del]

text \<open>
  \<open>file.readlines()\<close> on a file opened in text mode with the default \<open>newline=None\<close>:
  the text is cut after every line ending, and each of the endings \<open>\n\<close>, \<open>\r\<close> and
  \<open>\r\n\<close> is handed over as \<open>\n\<close>. \<open>after_cr\<close> says that the character before was a
  carriage return (whose line is already closed), \<open>cur\<close> is the line being read.
\<close>

fun readlines_aux :: "bool \<Rightarrow> string \<Rightarrow> string \<Rightarrow> string list" where
  "readlines_aux after_cr cur [] = (if cur = [] then [] else [cur])"
| "readlines_aux after_cr cur (c # cs) =
     (if after_cr \<and> c = LF then readlines_aux False cur cs
      else if c = LF then (cur @ [LF]) # readlines_aux False [] cs
      else if c = CR then (cur @ [LF]) # readlines_aux True [] cs
      else readlines_aux False (cur @ [c]) cs)"

definition readlines :: "string \<Rightarrow> string list" where
  "readlines text = readlines_aux False [] text"

section \<open>Errors\<close>

text \<open>
  The exceptions that can leave the functions modelled here: a file that cannot be opened
  or read (\<open>open\<close> raises, with the path), \<open>NetworkXNoCycle\<close> raised by \<open>nx.find_cycle\<close>,
  and the \<open>KeyError\<close> of \<open>set.remove\<close> inside \<open>nx.find_cycle\<close>.
\<close>

datatype error = ReadFailure string | NetworkXNoCycle | KeyError

section \<open>The files the program reads\<close>

text \<open>
  A directory holds the names of its files and its subdirectories, in the order the
  operating system lists them. \<open>listing\<close> is the directory at the path handed to
  \<open>os.walk\<close> (\<open>None\<close> when there is no directory there: \<open>os.walk\<close> then yields
  nothing); \<open>contents\<close> is what \<open>open(path, "r")\<close> followed by reading delivers,
  \<open>None\<close> when it raises.
\<close>

datatype fs_dir = Dir (filenames: "string list") (subdirs: "(string \<times> fs_dir) list")

record filesystem =
  listing :: "string \<Rightarrow> fs_dir option"
  contents :: "string \<Rightarrow> string option"

section \<open>Import Extractor: \<open>parse_imports\<close>\<close>

text \<open>
  The body of the loop \<open>for line in lines\<close> of \<open>parse_imports\<close>, on one line and the
  list \<open>imports\<close> built so far.
\<close>

definition parse_line :: "string \<Rightarrow> string list \<Rightarrow> string list" where
  "parse_line line0 imports =
     (let line = str_strip line0 in
      if startswith line ''import '' then
        (let parts = str_split line in
         if length parts > 1 then imports @ [parts ! 1] else imports)
      else if startswith line ''from '' then
        (let parts = str_split line in
         if length parts > 3 \<and> parts ! 2 = ''import''
         then imports @ [parts ! 1 @ ''.'' @ parts ! 3] else imports)
      else imports)"

fun scan_lines :: "string list \<Rightarrow> string list \<Rightarrow> string list" where
  "scan_lines [] imports = imports"
| "scan_lines (line # lines) imports = scan_lines lines (parse_line line imports)"

definition parse_imports :: "filesystem \<Rightarrow> string \<Rightarrow> error + string list" where
  "parse_imports fs file_path =
     (case contents fs file_path of
        None \<Rightarrow> Inl (ReadFailure file_path)
      | Some text \<Rightarrow> Inr (scan_lines (readlines text) []))"

text \<open>
  The contract of the Import Extractor as the specification words it, for one trimmed
  line: the names the line contributes.
\<close>

definition line_names :: "string \<Rightarrow> string list" where
  "line_names line =
     (if startswith line ''import '' \<and> 2 \<le> length (str_split line)
      then [str_split line ! 1]
      else if startswith line ''from '' \<and> 4 \<le> length (str_split line)
              \<and> str_split line ! 2 = ''import''
      then [str_split line ! 1 @ ''.'' @ str_split line ! 3]
      else [])"

section \<open>The directed graph of the graph library\<close>

text \<open>
  \<open>nx.DiGraph\<close> keeps three dictionaries: \<open>_node\<close> (the nodes), \<open>_succ\<close> and \<open>_pred\<close>
  (for every node the dictionary of its successors and of its predecessors). A Python
  dictionary iterates in the order its keys were first stored, so each is a list here:
  \<open>nodes\<close> is the key list of \<open>_node\<close>, \<open>succ g u\<close> the key list of \<open>_succ[u]\<close> and
  \<open>pred g v\<close> that of \<open>_pred[v]\<close>. The graph stores no edge data here.
\<close>

record 'a digraph =
  nodes :: "'a list"
  succ :: "'a \<Rightarrow> 'a list"
  pred :: "'a \<Rightarrow> 'a list"

definition empty_graph :: "'a digraph" where
  "empty_graph = \<lparr>nodes = [], succ = (\<lambda>_. []), pred = (\<lambda>_. [])\<rparr>"

text \<open>\<open>d[k] = ...\<close> on the key list of a dictionary: a new key goes to the end.\<close>

definition store_key :: "'a \<Rightarrow> 'a list \<Rightarrow> 'a list" where
  "store_key k ks = (if k \<in> set ks then ks else ks @ [k])"

text \<open>The step \<open>if u not in self._succ: ...\<close> of \<open>add_edge\<close>, for one endpoint.\<close>

definition ensure_node :: "'a \<Rightarrow> 'a digraph \<Rightarrow> 'a digraph" where
  "ensure_node n g =
     (if n \<in> set (nodes g) then g
      else g\<lparr>nodes := nodes g @ [n], succ := (succ g)(n := []), pred := (pred g)(n := [])\<rparr>)"

definition add_edge :: "'a \<Rightarrow> 'a \<Rightarrow> 'a digraph \<Rightarrow> 'a digraph" where
  "add_edge u v g =
     (let g2 = ensure_node v (ensure_node u g)
      in g2\<lparr>succ := (succ g2)(u := store_key v (succ g2 u)),
            pred := (pred g2)(v := store_key u (pred g2 v))\<rparr>)"

text \<open>\<open>len(graph.nodes)\<close>, the iteration of \<open>graph.edges\<close>, \<open>len(graph.edges)\<close> and the
  iteration of \<open>graph.in_degree()\<close>.\<close>

definition number_of_nodes :: "'a digraph \<Rightarrow> nat" where
  "number_of_nodes g = length (nodes g)"

definition graph_edges :: "'a digraph \<Rightarrow> ('a \<times> 'a) list" where
  "graph_edges g = concat (map (\<lambda>u. map (\<lambda>v. (u, v)) (succ g u)) (nodes g))"

definition number_of_edges :: "'a digraph \<Rightarrow> nat" where
  "number_of_edges g = sum_list (map (\<lambda>n. length (succ g n)) (nodes g))"

definition in_degree :: "'a digraph \<Rightarrow> ('a \<times> nat) list" where
  "in_degree g = map (\<lambda>n. (n, length (pred g n))) (nodes g)"

section \<open>Graph Builder: \<open>build_import_graph\<close>\<close>

text \<open>\<open>os.path.join\<close> of two components, on a POSIX system.\<close>

definition path_join :: "string \<Rightarrow> string \<Rightarrow> string" where
  "path_join a b =
     (if startswith b ''/'' then b
      else if a = [] \<or> endswith a ''/'' then a @ b
      else a @ ''/'' @ b)"

text \<open>
  \<open>os.walk(path)\<close>, top-down: for every directory the triple of its path, the names of
  its subdirectories and the names of its files, a directory before its subdirectories.
\<close>

fun walk_dir :: "string \<Rightarrow> fs_dir \<Rightarrow> (string \<times> string list \<times> string list) list"
  and walk_subdirs :: "string \<Rightarrow> (string \<times> fs_dir) list
                        \<Rightarrow> (string \<times> string list \<times> string list) list" where
  "walk_dir path (Dir files subs) = (path, map fst subs, files) # walk_subdirs path subs"
| "walk_subdirs path [] = []"
| "walk_subdirs path (sub # subs) =
     walk_dir (path_join path (fst sub)) (snd sub) @ walk_subdirs path subs"

definition os_walk :: "filesystem \<Rightarrow> string \<Rightarrow> (string \<times> string list \<times> string list) list" where
  "os_walk fs path = (case listing fs path of None \<Rightarrow> [] | Some d \<Rightarrow> walk_dir path d)"

text \<open>The loop \<open>for imp in imports: graph.add_edge(file, imp)\<close>.\<close>

fun add_imports :: "string \<Rightarrow> string list \<Rightarrow> string digraph \<Rightarrow> string digraph" where
  "add_imports file [] graph = graph"
| "add_imports file (imp # imports) graph = add_imports file imports (add_edge file imp graph)"

text \<open>The loop \<open>for file in files\<close>; a failure of \<open>parse_imports\<close> leaves it at once.\<close>

fun scan_files :: "filesystem \<Rightarrow> string \<Rightarrow> string list \<Rightarrow> string digraph
                     \<Rightarrow> error + string digraph" where
  "scan_files fs root [] graph = Inr graph"
| "scan_files fs root (file # files) graph =
     (if endswith file ''.py'' then
        (let file_path = path_join root file in
         case parse_imports fs file_path of
           Inl e \<Rightarrow> Inl e
         | Inr imports \<Rightarrow> scan_files fs root files (add_imports file imports graph))
      else scan_files fs root files graph)"

text \<open>The loop \<open>for root, _, files in os.walk(codebase_path)\<close>.\<close>

fun scan_walk :: "filesystem \<Rightarrow> (string \<times> string list \<times> string list) list \<Rightarrow> string digraph
                    \<Rightarrow> error + string digraph" where
  "scan_walk fs [] graph = Inr graph"
| "scan_walk fs ((root, dirs, files) # rest) graph =
     (case scan_files fs root files graph of
        Inl e \<Rightarrow> Inl e
      | Inr graph' \<Rightarrow> scan_walk fs rest graph')"

definition build_import_graph :: "filesystem \<Rightarrow> string \<Rightarrow> error + string digraph" where
  "build_import_graph fs codebase_path = scan_walk fs (os_walk fs codebase_path) empty_graph"

section \<open>Insight Analyzer: critical nodes\<close>

definition identify_critical_nodes :: "'a digraph \<Rightarrow> 'a list" where
  "identify_critical_nodes graph =
     (let in_degrees = in_degree graph
      in map fst (filter (\<lambda>(node, degree). degree > 1) in_degrees))"

section \<open>Cycle search of the graph library: \<open>nx.find_cycle\<close>\<close>

text \<open>
  \<open>identify_circular_dependencies\<close> calls \<open>nx.find_cycle(graph, orientation='original')\<close>,
  which is code of the networkx library. This section follows that function and the
  generator \<open>edge_dfs\<close> it consumes, for a directed graph that is not a multigraph and the
  orientation \<open>'original'\<close>: an edge is a triple of tail, head and direction.
\<close>

datatype direction = FORWARD | REVERSE

type_synonym 'a dedge = "'a \<times> 'a \<times> direction"

text \<open>
  \<open>edges_from(node)\<close>: the out-edges of \<open>node\<close>, each with \<open>FORWARD\<close> appended.
  \<open>G.edges(node)\<close> goes through \<open>nbunch_iter\<close>, which yields only nodes of the graph.
\<close>

definition edges_from :: "'a digraph \<Rightarrow> 'a \<Rightarrow> 'a dedge list" where
  "edges_from G node =
     (if node \<in> set (nodes G) then map (\<lambda>v. (node, v, FORWARD)) (succ G node) else [])"

text \<open>\<open>edge_id(edge)\<close> is \<open>edge[:-1]\<close>, and \<open>tailhead(edge)\<close> is \<open>edge[:2]\<close>.\<close>

definition edge_id :: "'a dedge \<Rightarrow> 'a \<times> 'a" where
  "edge_id edge = (fst edge, fst (snd edge))"

definition tailhead :: "'a dedge \<Rightarrow> 'a \<times> 'a" where
  "tailhead edge = (fst edge, fst (snd edge))"

text \<open>
  The \<open>while stack\<close> loop of \<open>edge_dfs\<close>. The stack is held with its top first. The
  dictionary \<open>edges\<close> maps a visited node to an iterator over \<open>edges_from(node)\<close>; the
  iterator of \<open>n\<close> is the position \<open>pos n\<close> it has reached in that list. The result is
  the list of the edges the generator yields, in order.
\<close>

function edge_dfs_loop ::
  "'a digraph \<Rightarrow> 'a list \<Rightarrow> 'a set \<Rightarrow> ('a \<times> 'a) set \<Rightarrow> ('a \<Rightarrow> nat) \<Rightarrow> 'a dedge list" where
  "edge_dfs_loop G [] visited_nodes visited_edges pos = []"
| "edge_dfs_loop G (current_node # stack) visited_nodes visited_edges pos =
     (let pos1 = (if current_node \<notin> visited_nodes then pos(current_node := 0) else pos);
          visited_nodes1 = insert current_node visited_nodes;
          es = edges_from G current_node
      in if pos1 current_node < length es then
           (let edge = es ! pos1 current_node;
                pos2 = pos1(current_node := Suc (pos1 current_node));
                edgeid = edge_id edge
            in if edgeid \<notin> visited_edges
               then edge # edge_dfs_loop G (fst (snd edge) # current_node # stack)
                             visited_nodes1 (insert edgeid visited_edges) pos2
               else edge_dfs_loop G (current_node # stack) visited_nodes1 visited_edges pos2)
         else edge_dfs_loop G stack visited_nodes1 visited_edges pos1)"
  by pat_completeness auto

text \<open>The edges an iterator has still to deliver, counted for the termination argument.\<close>

definition pending :: "'a digraph \<Rightarrow> 'a set \<Rightarrow> ('a \<Rightarrow> nat) \<Rightarrow> 'a \<Rightarrow> nat" where
  "pending G visited_nodes pos n =
     (if n \<in> visited_nodes then length (edges_from G n) - pos n else length (edges_from G n))"

lemma pending_sum_less:
  assumes "finite S" "a \<in> S" "f a < g a" "\<And>n. n \<noteq> a \<Longrightarrow> f n = g n"
  shows "sum f S < sum (g :: 'a \<Rightarrow> nat) S"
proof -
  have "sum f S = f a + sum f (S - {a})" using assms(1,2) by (simp add: sum.remove)
  moreover have "sum g S = g a + sum g (S - {a})" using assms(1,2) by (simp add: sum.remove)
  moreover have "sum f (S - {a}) = sum g (S - {a})" using assms(4) by (intro sum.cong) auto
  ultimately show ?thesis using assms(3) by simp
qed

termination edge_dfs_loop
proof (relation "inv_image (less_than <*lex*> less_than)
    (\<lambda>(G, stack, vn, ve, pos). (sum (pending G vn pos) (set (nodes G)), length stack))",
    goal_cases)
  case 1
  show ?case by (intro wf_inv_image wf_lex_prod wf_less_than)
next
  case (2 G cur stack vn ve pos pos1 vn1 es edge pos2 edgeid)
  have cur: "cur \<in> set (nodes G)" using 2 by (auto simp: edges_from_def split: if_splits)
  have "sum (pending G vn1 pos2) (set (nodes G)) < sum (pending G vn pos) (set (nodes G))"
    using cur 2 by (intro pending_sum_less [of _ cur]) (auto simp: pending_def)
  then show ?case by simp
next
  case (3 G cur stack vn ve pos pos1 vn1 es edge pos2 edgeid)
  have cur: "cur \<in> set (nodes G)" using 3 by (auto simp: edges_from_def split: if_splits)
  have "sum (pending G vn1 pos2) (set (nodes G)) < sum (pending G vn pos) (set (nodes G))"
    using cur 3 by (intro pending_sum_less [of _ cur]) (auto simp: pending_def)
  then show ?case by simp
next
  case (4 G cur stack vn ve pos pos1 vn1 es)
  have "pending G vn1 pos1 n = pending G vn pos n" for n
    using 4 by (auto simp: pending_def)
  then show ?case by simp
qed

declare edge_dfs_loop.simps(2) [simp del]

text \<open>
  \<open>edge_dfs(G, source, orientation)\<close> as \<open>find_cycle\<close> calls it, with one node of the
  graph as \<open>source\<close>: the stack starts as \<open>[source]\<close>, nothing is visited.
\<close>

definition edge_dfs :: "'a digraph \<Rightarrow> 'a \<Rightarrow> 'a dedge list" where
  "edge_dfs G source = edge_dfs_loop G [source] {} {} (\<lambda>_. 0)"

text \<open>
  The inner \<open>while True\<close> loop of \<open>find_cycle\<close>, entered when an edge results from
  backtracking. The list \<open>edges\<close> (the active path) is held with its last element
  first. \<open>edges.pop()\<close> on the empty list raises \<open>IndexError\<close>, which the loop catches;
  \<open>active_nodes.remove\<close> raises \<open>KeyError\<close> for a node that is not in the set.
\<close>

fun pop_until :: "'a \<Rightarrow> 'a dedge list \<Rightarrow> 'a set \<Rightarrow> error + ('a dedge list \<times> 'a set)" where
  "pop_until tail [] active_nodes = Inr ([], {tail})"
| "pop_until tail (popped_edge # edges) active_nodes =
     (let popped_head = snd (tailhead popped_edge) in
      if popped_head \<notin> active_nodes then Inl KeyError
      else
        (let active_nodes' = active_nodes - {popped_head} in
         if edges \<noteq> [] \<and> tail = snd (tailhead (hd edges)) then Inr (edges, active_nodes')
         else pop_until tail edges active_nodes'))"

text \<open>
  The loop \<open>for edge in nx.edge_dfs(G, start_node, orientation)\<close> of \<open>find_cycle\<close>, on
  the edges still to come. It ends with the cycle candidate and \<open>final_node\<close> at the
  \<open>break\<close>, or with the set \<open>seen\<close> when the edges are used up.
\<close>

datatype 'a scan = Found "'a dedge list" 'a | Exhausted "'a set"

fun cycle_scan ::
  "'a set \<Rightarrow> 'a dedge list \<Rightarrow> 'a dedge list \<Rightarrow> 'a set \<Rightarrow> 'a set \<Rightarrow> 'a option
     \<Rightarrow> error + 'a scan" where
  "cycle_scan explored [] edges seen active_nodes previous_head = Inr (Exhausted seen)"
| "cycle_scan explored (edge # rest) edges seen active_nodes previous_head =
     (let tail = fst (tailhead edge); head = snd (tailhead edge) in
      if head \<in> explored then cycle_scan explored rest edges seen active_nodes previous_head
      else
        (case (if previous_head \<noteq> None \<and> Some tail \<noteq> previous_head
               then pop_until tail edges active_nodes else Inr (edges, active_nodes)) of
           Inl e \<Rightarrow> Inl e
         | Inr (edges', active_nodes') \<Rightarrow>
             if head \<in> active_nodes' then Inr (Found (rev (edge # edges')) head)
             else cycle_scan explored rest (edge # edges') (insert head seen)
                    (insert head active_nodes') (Some head)))"

text \<open>
  The last loop of \<open>find_cycle\<close> and its \<open>return cycle[i:]\<close>: the cycle candidate from
  the first edge whose tail is \<open>final_node\<close>, or its last edge when there is none.
\<close>

fun trim_cycle :: "'a \<Rightarrow> 'a dedge list \<Rightarrow> 'a dedge list" where
  "trim_cycle final_node [] = []"
| "trim_cycle final_node [edge] = [edge]"
| "trim_cycle final_node (edge # cycle) =
     (if fst (tailhead edge) = final_node then edge # cycle else trim_cycle final_node cycle)"

text \<open>
  The loop \<open>for start_node in G.nbunch_iter(source)\<close> with \<open>source = None\<close>, that is over
  all nodes, and its \<open>else\<close> branch, which raises \<open>NetworkXNoCycle\<close>.
\<close>

fun find_cycle_from :: "'a digraph \<Rightarrow> 'a set \<Rightarrow> 'a list \<Rightarrow> error + 'a dedge list" where
  "find_cycle_from G explored [] = Inl NetworkXNoCycle"
| "find_cycle_from G explored (start_node # rest) =
     (if start_node \<in> explored then find_cycle_from G explored rest
      else
        (case cycle_scan explored (edge_dfs G start_node) [] {start_node} {start_node} None of
           Inl e \<Rightarrow> Inl e
         | Inr (Found cycle final_node) \<Rightarrow> Inr (trim_cycle final_node cycle)
         | Inr (Exhausted seen) \<Rightarrow> find_cycle_from G (explored \<union> seen) rest))"

definition find_cycle :: "'a digraph \<Rightarrow> error + 'a dedge list" where
  "find_cycle G = find_cycle_from G {} (nodes G)"

section \<open>Insight Analyzer: cycles and the summary\<close>

text \<open>
  \<open>identify_circular_dependencies\<close>: only \<open>NetworkXNoCycle\<close> is caught; any other
  exception of the library call would pass through.
\<close>

definition identify_circular_dependencies :: "'a digraph \<Rightarrow> error + 'a dedge list" where
  "identify_circular_dependencies graph =
     (case find_cycle graph of
        Inr cycles \<Rightarrow> Inr cycles
      | Inl NetworkXNoCycle \<Rightarrow> Inr []
      | Inl e \<Rightarrow> Inl e)"

text \<open>The entry \<open>f'{u} -> {v}'\<close> of one edge, and the list \<open>insights\<close> of \<open>draw_insights\<close>.\<close>

definition edge_text :: "string dedge \<Rightarrow> string" where
  "edge_text edge = fst edge @ '' -> '' @ fst (snd edge)"

definition insight_lines ::
  "string digraph \<Rightarrow> string list \<Rightarrow> string dedge list \<Rightarrow> string list" where
  "insight_lines graph critical_nodes circular_dependencies =
     [''Insights about the codebase:'',
      ''Total number of nodes (files and imports): '' @ str_nat (number_of_nodes graph),
      ''Total number of edges (dependencies): '' @ str_nat (number_of_edges graph),
      ''Number of critical nodes (frequently imported): '' @ str_nat (length critical_nodes),
      ''Critical nodes: '' @ join '', '' critical_nodes]
     @ (if circular_dependencies \<noteq> [] then
          [''Number of circular dependencies: '' @ str_nat (length circular_dependencies),
           ''Circular dependencies: '' @ join '', '' (map edge_text circular_dependencies)]
        else [''No circular dependencies found.''])"

definition draw_insights :: "string digraph \<Rightarrow> error + string" where
  "draw_insights graph =
     (let critical_nodes = identify_critical_nodes graph in
      case identify_circular_dependencies graph of
        Inl e \<Rightarrow> Inl e
      | Inr circular_dependencies \<Rightarrow>
          Inr (join [LF] (insight_lines graph critical_nodes circular_dependencies)))"

text \<open>
  The route \<open>/\<close>: the graph is built from the fixed path and the summary is handed to
  the template; an exception of either step ends the request.
\<close>

definition index :: "filesystem \<Rightarrow> error + string" where
  "index fs =
     (let codebase_path = ''./example-codebase'' in
      case build_import_graph fs codebase_path of
        Inl e \<Rightarrow> Inl e
      | Inr import_graph \<Rightarrow> draw_insights import_graph)"

section \<open>Notions used to state the properties\<close>

text \<open>The paths \<open>build_import_graph\<close> opens for a walk, in order.\<close>

definition matched_paths :: "(string \<times> string list \<times> string list) list \<Rightarrow> string list" where
  "matched_paths w =
     concat (map (\<lambda>(root, dirs, files).
       map (path_join root) (filter (\<lambda>file. endswith file ''.py'') files)) w)"

text \<open>
  The pairs of file name and extracted name, in the order \<open>build_import_graph\<close> meets
  them in a walk: the arguments of its calls of \<open>add_edge\<close>.
\<close>

definition file_pairs :: "filesystem \<Rightarrow> string \<Rightarrow> string \<Rightarrow> (string \<times> string) list" where
  "file_pairs fs root file =
     (if endswith file ''.py'' then
        (case parse_imports fs (path_join root file) of
           Inl e \<Rightarrow> []
         | Inr imports \<Rightarrow> map (\<lambda>imp. (file, imp)) imports)
      else [])"

definition import_pairs ::
  "filesystem \<Rightarrow> (string \<times> string list \<times> string list) list \<Rightarrow> (string \<times> string) list" where
  "import_pairs fs w =
     concat (map (\<lambda>(root, dirs, files). concat (map (file_pairs fs root) files)) w)"

text \<open>The graph after a list of calls of \<open>add_edge\<close>.\<close>

fun add_edges :: "('a \<times> 'a) list \<Rightarrow> 'a digraph \<Rightarrow> 'a digraph" where
  "add_edges [] g = g"
| "add_edges (e # es) g = add_edges es (add_edge (fst e) (snd e) g)"

text \<open>
  A graph stands for a set of edges: the three dictionaries hold no key twice and agree
  with the set.
\<close>

definition represents :: "'a digraph \<Rightarrow> ('a \<times> 'a) set \<Rightarrow> bool" where
  "represents g E =
     (distinct (nodes g) \<and> set (nodes g) = fst ` E \<union> snd ` E
      \<and> (\<forall>u. distinct (succ g u) \<and> set (succ g u) = {v. (u, v) \<in> E})
      \<and> (\<forall>v. distinct (pred g v) \<and> set (pred g v) = {u. (u, v) \<in> E}))"

text \<open>
  A list of edges is a closed path: each edge starts where the one before ends, and the
  last ends where the first starts. It is a cycle of the graph when it is not empty and
  all its edges are edges of the graph.
\<close>

fun chain :: "'a dedge list \<Rightarrow> bool" where
  "chain [] = True"
| "chain [e] = True"
| "chain (e # e' # es) = (fst (snd e) = fst e' \<and> chain (e' # es))"

definition is_edge :: "'a digraph \<Rightarrow> 'a dedge \<Rightarrow> bool" where
  "is_edge G e = (e \<in> set (edges_from G (fst e)))"

definition cycle_in :: "'a digraph \<Rightarrow> 'a dedge list \<Rightarrow> bool" where
  "cycle_in G c =
     (c \<noteq> [] \<and> list_all (is_edge G) c \<and> chain c \<and> fst (snd (last c)) = fst (hd c))"

definition has_cycle :: "'a digraph \<Rightarrow> bool" where
  "has_cycle G = (\<exists>c. cycle_in G c)"

text \<open>
  The position the iterator of a node has reached; a node not yet visited gets a fresh
  iterator.
\<close>

definition iter_pos :: "'a set \<Rightarrow> ('a \<Rightarrow> nat) \<Rightarrow> 'a \<Rightarrow> nat" where
  "iter_pos vn pos n = (if n \<in> vn then pos n else 0)"

text \<open>The heads of a list of edges.\<close>

definition heads :: "'a dedge list \<Rightarrow> 'a list" where
  "heads es = map (\<lambda>e. fst (snd e)) es"

text \<open>Every edge an iterator has delivered so far is among the visited edges.\<close>

definition consumed :: "'a digraph \<Rightarrow> 'a set \<Rightarrow> ('a \<times> 'a) set \<Rightarrow> ('a \<Rightarrow> nat) \<Rightarrow> bool" where
  "consumed G vn ve pos =
     (\<forall>n \<in> vn. edge_id ` set (take (pos n) (edges_from G n)) \<subseteq> ve)"

text \<open>
  The active path of \<open>find_cycle\<close> (newest edge first): the node it has reached, and what
  the loop keeps true of it: it is a path from \<open>base\<close> through distinct nodes, and
  \<open>active_nodes\<close> holds exactly its nodes.
\<close>

definition endnode :: "'a \<Rightarrow> 'a dedge list \<Rightarrow> 'a" where
  "endnode base es = (if es = [] then base else fst (snd (hd es)))"

definition path_ok :: "'a \<Rightarrow> 'a dedge list \<Rightarrow> 'a set \<Rightarrow> bool" where
  "path_ok base es active =
     (chain (rev es) \<and> (es \<noteq> [] \<longrightarrow> fst (last es) = base) \<and> distinct (base # heads es)
      \<and> active = insert base (set (heads es)))"

text \<open>A set of nodes that no edge of the graph leaves.\<close>

definition closed_under :: "'a digraph \<Rightarrow> 'a set \<Rightarrow> bool" where
  "closed_under G X = (\<forall>e. is_edge G e \<and> fst e \<in> X \<longrightarrow> fst (snd e) \<in> X)"

text \<open>
  Every edge of a list starts at \<open>s\<close> or at the head of an earlier edge; and what the
  loop of \<open>find_cycle\<close> keeps true after the edges \<open>xs\<close>.
\<close>

definition tails_ok :: "'a \<Rightarrow> 'a dedge list \<Rightarrow> bool" where
  "tails_ok s L = (\<forall>ys e zs. L = ys @ e # zs \<longrightarrow> fst e \<in> insert s (set (heads ys)))"

definition scan_inv ::
  "'a \<Rightarrow> 'a set \<Rightarrow> 'a dedge list \<Rightarrow> 'a dedge list \<Rightarrow> 'a set \<Rightarrow> 'a option \<Rightarrow> bool" where
  "scan_inv s explored xs es active prev =
     ((es = [] \<and> prev = None \<and> active = {s} \<and> set (heads xs) \<subseteq> explored)
      \<or> (es \<noteq> [] \<and> prev = Some (fst (snd (hd es))) \<and> (\<exists>base. path_ok base es active)))"

text \<open>Example graphs.\<close>

definition triangle_graph :: "string digraph" where
  "triangle_graph = add_edges [(''A'', ''B''), (''B'', ''C''), (''C'', ''A'')] empty_graph"

definition two_cycles_graph :: "string digraph" where
  "two_cycles_graph =
     add_edges [(''a'', ''b''), (''b'', ''a''), (''c'', ''d''), (''d'', ''c'')] empty_graph"

definition one_edge_graph :: "string digraph" where
  "one_edge_graph = add_edges [(''a.py'', ''os'')] empty_graph"

text \<open>Example directories, all at the path the request handlers use.\<close>

definition docs_only_fs :: filesystem where
  "docs_only_fs =
     \<lparr>listing = (\<lambda>p. if p = ''./example-codebase''
                      then Some (Dir [''README.md''] [(''docs'', Dir [''notes.txt''] [])])
                      else None),
      contents = (\<lambda>p. None)\<rparr>"

definition unreadable_fs :: filesystem where
  "unreadable_fs =
     \<lparr>listing = (\<lambda>p. if p = ''./example-codebase''
                      then Some (Dir [''a.py'', ''b.py'', ''c.py''] []) else None),
      contents = (\<lambda>p. if p = ''./example-codebase/a.py'' then Some (''import os'' @ [LF])
                       else if p = ''./example-codebase/c.py'' then Some (''import sys'' @ [LF])
                       else None)\<rparr>"

definition self_import_fs :: filesystem where
  "self_import_fs =
     \<lparr>listing = (\<lambda>p. if p = ''./example-codebase'' then Some (Dir [''a.py''] []) else None),
      contents = (\<lambda>p. if p = ''./example-codebase/a.py'' then Some (''import a.py'' @ [LF])
                       else None)\<rparr>"

definition repeated_import_fs :: filesystem where
  "repeated_import_fs =
     \<lparr>listing = (\<lambda>p. if p = ''./example-codebase'' then Some (Dir [''a.py''] []) else None),
      contents = (\<lambda>p. if p = ''./example-codebase/a.py''
                       then Some (''import os'' @ [LF] @ ''import os'' @ [LF])
                       else None)\<rparr>"

definition same_name_fs :: filesystem where
  "same_name_fs =
     \<lparr>listing = (\<lambda>p. if p = ''./example-codebase''
                      then Some (Dir [] [(''a'', Dir [''util.py''] []), (''b'', Dir [''util.py''] [])])
                      else None),
      contents = (\<lambda>p. if p = ''./example-codebase/a/util.py'' \<or> p = ''./example-codebase/b/util.py''
                       then Some (''import os'' @ [LF]) else None)\<rparr>"

text \<open>
  The files, by path, that \<open>build_import_graph\<close> opens in a walk and in which
  \<open>parse_imports\<close> finds the name.
\<close>

definition importing_files ::
  "filesystem \<Rightarrow> (string \<times> string list \<times> string list) list \<Rightarrow> string \<Rightarrow> string list" where
  "importing_files fs w name =
     filter (\<lambda>file_path. case parse_imports fs file_path of
                            Inl e \<Rightarrow> False
                          | Inr imports \<Rightarrow> name \<in> set imports)
       (matched_paths w)"

definition two_files_fs :: filesystem where
  "two_files_fs =
     \<lparr>listing = (\<lambda>p. if p = ''./example-codebase''
                      then Some (Dir [''a.py'', ''b.py''] []) else None),
      contents = (\<lambda>p. if p = ''./example-codebase/a.py''
                       then Some (''import os'' @ [LF] @ ''import sys'' @ [LF])
                       else if p = ''./example-codebase/b.py'' then Some (''import os'' @ [LF])
                       else None)\<rparr>"

definition shared_import_pairs :: "(string \<times> string) list" where
  "shared_import_pairs = [(''a.py'', ''os''), (''b.py'', ''os''), (''a.py'', ''sys'')]"

text \<open>The texts of two example files.\<close>

definition two_imports_text :: string where
  "two_imports_text = ''import os'' @ [LF] @ ''from a import b'' @ [LF]"

definition comma_import_text :: string where
  "comma_import_text = ''import os, sys'' @ [LF]"

section \<open>Properties of the Import Extractor\<close>

lemma parse_line_names: "parse_line l acc = acc @ line_names (str_strip l)"
  by (simp add: parse_line_def line_names_def Let_def startswith_def)

lemma scan_lines_names:
  "scan_lines ls acc = acc @ concat (map (\<lambda>l. line_names (str_strip l)) ls)"
  by (induction ls arbitrary: acc) (simp_all add: parse_line_names)

lemma scan_two_imports: "scan_lines (readlines two_imports_text) [] = [''os'', ''a.b'']"
  by (simp add: two_imports_text_def readlines_def LF_def CR_def
      parse_line_def str_strip_def str_split_def startswith_def isspace_def)

text \<open>
  Claim C1. For every file that can be read, \<open>parse_imports\<close> returns, in order and with
  duplicates kept, what the lines contribute one after the other: a trimmed line that
  starts with \<open>import \<close> and has at least two tokens gives its second token, a trimmed
  line that starts with \<open>from \<close>, has at least four tokens and \<open>import\<close> as the third
  gives \<open><token2>.<token4>\<close>, every other line gives nothing. A file with the two lines
  \<open>import os\<close> and \<open>from a import b\<close> yields exactly \<open>[os, a.b]\<close>.
\<close>

theorem parse_imports_contract:
  "parse_imports fs p =
     (case contents fs p of
        None \<Rightarrow> Inl (ReadFailure p)
      | Some text \<Rightarrow> Inr (concat (map (\<lambda>l. line_names (str_strip l)) (readlines text))))
   \<and> parse_imports (fs\<lparr>contents := (contents fs)(p \<mapsto> two_imports_text)\<rparr>) p
       = Inr [''os'', ''a.b'']"
proof
  show "parse_imports fs p =
     (case contents fs p of
        None \<Rightarrow> Inl (ReadFailure p)
      | Some text \<Rightarrow> Inr (concat (map (\<lambda>l. line_names (str_strip l)) (readlines text))))"
    by (simp add: parse_imports_def scan_lines_names split: option.splits)
  show "parse_imports (fs\<lparr>contents := (contents fs)(p \<mapsto> two_imports_text)\<rparr>) p
       = Inr [''os'', ''a.b'']"
    by (simp add: parse_imports_def scan_two_imports)
qed

text \<open>
  Claim C7. A file whose only line is \<open>import os, sys\<close> yields exactly the one name
  \<open>os,\<close>, the comma included: the list after \<open>import\<close> is not split at commas.
\<close>

theorem parse_imports_comma_form:
  "parse_imports (fs\<lparr>contents := (contents fs)(p \<mapsto> comma_import_text)\<rparr>) p = Inr [''os,'']"
  by (simp add: parse_imports_def comma_import_text_def readlines_def LF_def CR_def
      parse_line_def str_strip_def str_split_def startswith_def isspace_def)

section \<open>The graph as a set of edges\<close>

lemma represents_empty: "represents empty_graph {}"
  by (simp add: represents_def empty_graph_def)

lemma store_key_set [simp]: "set (store_key k ks) = insert k (set ks)"
  by (auto simp: store_key_def)

lemma store_key_distinct [simp]: "distinct (store_key k ks) = distinct ks"
  by (auto simp: store_key_def)

lemma nodes_ensure_node: "nodes (ensure_node n g) = store_key n (nodes g)"
  by (simp add: ensure_node_def store_key_def)

lemma succ_ensure_node:
  "succ (ensure_node n g) = (if n \<in> set (nodes g) then succ g else (succ g)(n := []))"
  by (simp add: ensure_node_def)

lemma pred_ensure_node:
  "pred (ensure_node n g) = (if n \<in> set (nodes g) then pred g else (pred g)(n := []))"
  by (simp add: ensure_node_def)

lemma nodes_add_edge: "nodes (add_edge u v g) = store_key v (store_key u (nodes g))"
  by (simp add: add_edge_def Let_def nodes_ensure_node)

lemma represents_succ_nil:
  assumes "represents g E" "n \<notin> set (nodes g)"
  shows "succ g n = []"
proof -
  have "set (succ g n) = {v. (n, v) \<in> E}" and "set (nodes g) = fst ` E \<union> snd ` E"
    using assms(1) by (simp_all add: represents_def)
  with assms(2) have "set (succ g n) = {}" by (auto simp: image_iff)
  then show ?thesis by simp
qed

lemma represents_pred_nil:
  assumes "represents g E" "n \<notin> set (nodes g)"
  shows "pred g n = []"
proof -
  have "set (pred g n) = {u. (u, n) \<in> E}" and "set (nodes g) = fst ` E \<union> snd ` E"
    using assms(1) by (simp_all add: represents_def)
  with assms(2) have "set (pred g n) = {}" by (auto simp: image_iff)
  then show ?thesis by simp
qed

lemma succ_add_edge:
  assumes "represents g E"
  shows "succ (add_edge u v g) = (succ g)(u := store_key v (succ g u))"
proof -
  have a: "succ (ensure_node u g) = succ g"
    using represents_succ_nil [OF assms, of u] by (simp add: succ_ensure_node fun_upd_idem_iff)
  have b: "succ (ensure_node v (ensure_node u g)) = succ g"
    using represents_succ_nil [OF assms, of v]
    by (simp add: succ_ensure_node [of v] a nodes_ensure_node fun_upd_idem_iff)
  show ?thesis by (simp add: add_edge_def Let_def b)
qed

lemma pred_add_edge:
  assumes "represents g E"
  shows "pred (add_edge u v g) = (pred g)(v := store_key u (pred g v))"
proof -
  have a: "pred (ensure_node u g) = pred g"
    using represents_pred_nil [OF assms, of u] by (simp add: pred_ensure_node fun_upd_idem_iff)
  have b: "pred (ensure_node v (ensure_node u g)) = pred g"
    using represents_pred_nil [OF assms, of v]
    by (simp add: pred_ensure_node [of v] a nodes_ensure_node fun_upd_idem_iff)
  show ?thesis by (simp add: add_edge_def Let_def b)
qed

lemma represents_add_edge:
  assumes "represents g E"
  shows "represents (add_edge u v g) (insert (u, v) E)"
proof -
  have n: "distinct (nodes g)" "set (nodes g) = fst ` E \<union> snd ` E"
    and s: "\<And>x. distinct (succ g x)" "\<And>x. set (succ g x) = {y. (x, y) \<in> E}"
    and p: "\<And>x. distinct (pred g x)" "\<And>x. set (pred g x) = {y. (y, x) \<in> E}"
    using assms by (simp_all add: represents_def)
  have 1: "distinct (nodes (add_edge u v g))"
    by (simp add: nodes_add_edge n)
  have 2: "set (nodes (add_edge u v g)) = fst ` insert (u, v) E \<union> snd ` insert (u, v) E"
    by (simp add: nodes_add_edge n)
  have 3: "distinct (succ (add_edge u v g) x)" for x
    by (simp add: succ_add_edge [OF assms] s)
  have 4: "set (succ (add_edge u v g) x) = {y. (x, y) \<in> insert (u, v) E}" for x
    by (auto simp: succ_add_edge [OF assms] s)
  have 5: "distinct (pred (add_edge u v g) x)" for x
    by (simp add: pred_add_edge [OF assms] p)
  have 6: "set (pred (add_edge u v g) x) = {y. (y, x) \<in> insert (u, v) E}" for x
    by (auto simp: pred_add_edge [OF assms] p)
  show ?thesis
    unfolding represents_def by (intro conjI allI 1 2 3 4 5 6)
qed

lemma add_edge_present:
  assumes "represents g E" "(u, v) \<in> E"
  shows "add_edge u v g = g"
proof -
  have "set (succ g u) = {y. (u, y) \<in> E}" "set (pred g v) = {y. (y, v) \<in> E}"
    "set (nodes g) = fst ` E \<union> snd ` E"
    using assms(1) by (simp_all add: represents_def)
  with assms(2) have "u \<in> set (nodes g)" "v \<in> set (nodes g)" "v \<in> set (succ g u)"
    "u \<in> set (pred g v)"
    by (auto simp: image_iff intro: bexI [of _ "(u, v)"])
  then show ?thesis
    by (simp add: add_edge_def ensure_node_def store_key_def)
qed

lemma add_edges_append: "add_edges (xs @ ys) g = add_edges ys (add_edges xs g)"
  by (induction xs arbitrary: g) simp_all

lemma represents_add_edges:
  "represents g E \<Longrightarrow> represents (add_edges es g) (E \<union> set es)"
proof (induction es arbitrary: g E)
  case Nil
  then show ?case by simp
next
  case (Cons e es)
  have "represents (add_edge (fst e) (snd e) g) (insert (fst e, snd e) E)"
    by (rule represents_add_edge [OF Cons.prems])
  from Cons.IH [OF this] show ?case by simp
qed

lemma represents_built: "represents (add_edges es empty_graph) (set es)"
  using represents_add_edges [OF represents_empty, of es] by simp

lemma add_edges_present:
  "represents g E \<Longrightarrow> set es \<subseteq> E \<Longrightarrow> add_edges es g = g"
proof (induction es)
  case Nil
  then show ?case by simp
next
  case (Cons e es)
  have "(fst e, snd e) \<in> E" using Cons.prems(2) by simp
  then have "add_edge (fst e) (snd e) g = g"
    by (rule add_edge_present [OF Cons.prems(1)])
  with Cons show ?case by simp
qed

lemma add_imports_add_edges:
  "add_imports file imps g = add_edges (map (\<lambda>imp. (file, imp)) imps) g"
  by (induction imps arbitrary: g) simp_all

lemma set_graph_edges:
  "set (graph_edges g) = {(u, v). u \<in> set (nodes g) \<and> v \<in> set (succ g u)}"
  by (auto simp: graph_edges_def)

lemma length_graph_edges: "length (graph_edges g) = number_of_edges g"
  by (simp add: graph_edges_def number_of_edges_def length_concat comp_def)

lemma distinct_pair_concat:
  "distinct ns \<Longrightarrow> (\<And>u. distinct (f u))
   \<Longrightarrow> distinct (concat (map (\<lambda>u. map (\<lambda>v. (u, v)) (f u)) ns))"
  by (induction ns) (auto simp: distinct_map inj_on_def)

lemma represents_graph_edges:
  assumes "represents g E"
  shows "set (graph_edges g) = E" and "distinct (graph_edges g)"
proof -
  have n: "distinct (nodes g)" "set (nodes g) = fst ` E \<union> snd ` E"
    and s: "\<And>x. distinct (succ g x)" "\<And>x. set (succ g x) = {y. (x, y) \<in> E}"
    using assms by (simp_all add: represents_def)
  show "set (graph_edges g) = E"
    by (auto simp: set_graph_edges s n image_iff intro: bexI [of _ "(a, b)" for a b])
  show "distinct (graph_edges g)"
    unfolding graph_edges_def by (rule distinct_pair_concat [OF n(1) s(1)])
qed

lemma represents_in_degree:
  assumes "represents g E"
  shows "length (pred g n) = card {u. (u, n) \<in> E}"
proof -
  have "distinct (pred g n)" "set (pred g n) = {u. (u, n) \<in> E}"
    using assms by (simp_all add: represents_def)
  then show ?thesis using distinct_card by metis
qed

lemma identify_critical_nodes_filter:
  "identify_critical_nodes g = filter (\<lambda>n. 1 < length (pred g n)) (nodes g)"
  by (simp add: identify_critical_nodes_def in_degree_def filter_map comp_def)

lemma scan_files_ok:
  "(\<And>f. f \<in> set files \<Longrightarrow> endswith f ''.py''
      \<Longrightarrow> contents fs (path_join root f) \<noteq> None)
   \<Longrightarrow> scan_files fs root files g = Inr (add_edges (concat (map (file_pairs fs root) files)) g)"
proof (induction files arbitrary: g)
  case Nil
  then show ?case by simp
next
  case (Cons f0 files)
  show ?case
  proof (cases "endswith f0 ''.py''")
    case True
    then obtain body where t: "contents fs (path_join root f0) = Some body"
      using Cons.prems [of f0] by auto
    show ?thesis
      using True t Cons.IH Cons.prems
      by (simp add: parse_imports_def file_pairs_def add_edges_append add_imports_add_edges)
  next
    case False
    then show ?thesis using Cons.IH Cons.prems by (simp add: file_pairs_def)
  qed
qed

lemma scan_files_Inr:
  "scan_files fs root files g = Inr g'
   \<Longrightarrow> g' = add_edges (concat (map (file_pairs fs root) files)) g
       \<and> (\<forall>f \<in> set files. endswith f ''.py'' \<longrightarrow> contents fs (path_join root f) \<noteq> None)"
proof (induction files arbitrary: g)
  case Nil
  then show ?case by simp
next
  case (Cons f0 files)
  show ?case
  proof (cases "endswith f0 ''.py''")
    case True
    show ?thesis
    proof (cases "contents fs (path_join root f0)")
      case None
      then show ?thesis using True Cons.prems by (simp add: parse_imports_def)
    next
      case (Some body)
      then show ?thesis
        using True Cons.IH Cons.prems
        by (simp add: parse_imports_def file_pairs_def add_edges_append add_imports_add_edges)
    qed
  next
    case False
    then show ?thesis using Cons.IH Cons.prems by (simp add: file_pairs_def)
  qed
qed

lemma scan_files_fail:
  "f1 \<in> set files \<Longrightarrow> endswith f1 ''.py'' \<Longrightarrow> contents fs (path_join root f1) = None
   \<Longrightarrow> \<exists>f. f \<in> set files \<and> endswith f ''.py'' \<and> contents fs (path_join root f) = None
         \<and> scan_files fs root files g = Inl (ReadFailure (path_join root f))"
proof (induction files arbitrary: g)
  case Nil
  then show ?case by simp
next
  case (Cons f0 files)
  show ?case
  proof (cases "endswith f0 ''.py''")
    case True
    show ?thesis
    proof (cases "contents fs (path_join root f0)")
      case None
      then show ?thesis using True by (intro exI [of _ f0]) (simp add: parse_imports_def)
    next
      case (Some body)
      then have "f1 \<in> set files" using Cons.prems by auto
      from Cons.IH [OF this Cons.prems(2,3)] obtain f where
        "f \<in> set files" "endswith f ''.py''" "contents fs (path_join root f) = None"
        "scan_files fs root files (add_imports f0 (scan_lines (readlines body) []) g)
           = Inl (ReadFailure (path_join root f))"
        by blast
      then show ?thesis using True Some
        by (intro exI [of _ f]) (simp add: parse_imports_def)
    qed
  next
    case False
    then have "f1 \<in> set files" using Cons.prems by auto
    from Cons.IH [OF this Cons.prems(2,3)] obtain f where
      "f \<in> set files" "endswith f ''.py''" "contents fs (path_join root f) = None"
      "scan_files fs root files g = Inl (ReadFailure (path_join root f))"
      by blast
    then show ?thesis using False by (intro exI [of _ f]) simp
  qed
qed

lemma matched_paths_Cons:
  "matched_paths ((root, dirs, files) # w)
     = map (path_join root) (filter (\<lambda>f. endswith f ''.py'') files) @ matched_paths w"
  by (simp add: matched_paths_def)

lemma import_pairs_Cons:
  "import_pairs fs ((root, dirs, files) # w)
     = concat (map (file_pairs fs root) files) @ import_pairs fs w"
  by (simp add: import_pairs_def)

lemma scan_walk_Inr:
  "scan_walk fs w g = Inr g'
   \<Longrightarrow> g' = add_edges (import_pairs fs w) g
       \<and> (\<forall>q \<in> set (matched_paths w). contents fs q \<noteq> None)"
proof (induction w arbitrary: g)
  case Nil
  then show ?case by (simp add: import_pairs_def matched_paths_def)
next
  case (Cons entry w)
  obtain root dirs files where e: "entry = (root, dirs, files)" by (cases entry) auto
  from Cons.prems e obtain g1 where g1: "scan_files fs root files g = Inr g1"
    and r: "scan_walk fs w g1 = Inr g'"
    by (auto split: sum.splits)
  from scan_files_Inr [OF g1] Cons.IH [OF r] show ?case
    unfolding e matched_paths_Cons import_pairs_Cons add_edges_append by auto
qed

lemma scan_walk_ok:
  "(\<And>q. q \<in> set (matched_paths w) \<Longrightarrow> contents fs q \<noteq> None)
   \<Longrightarrow> scan_walk fs w g = Inr (add_edges (import_pairs fs w) g)"
proof (induction w arbitrary: g)
  case Nil
  then show ?case by (simp add: import_pairs_def)
next
  case (Cons entry w)
  obtain root dirs files where e: "entry = (root, dirs, files)" by (cases entry) auto
  have "contents fs (path_join root f) \<noteq> None" if "f \<in> set files" "endswith f ''.py''" for f
    using Cons.prems [of "path_join root f"] that unfolding e matched_paths_Cons by simp
  then have 1: "scan_files fs root files g
             = Inr (add_edges (concat (map (file_pairs fs root) files)) g)"
    by (rule scan_files_ok)
  have "contents fs q \<noteq> None" if "q \<in> set (matched_paths w)" for q
    using Cons.prems [of q] that unfolding e matched_paths_Cons by simp
  then have 2: "scan_walk fs w g1 = Inr (add_edges (import_pairs fs w) g1)" for g1
    by (rule Cons.IH)
  show ?case unfolding e import_pairs_Cons add_edges_append using 1 2 by simp
qed

lemma scan_walk_fail:
  "q0 \<in> set (matched_paths w) \<Longrightarrow> contents fs q0 = None
   \<Longrightarrow> \<exists>q. q \<in> set (matched_paths w) \<and> contents fs q = None
         \<and> scan_walk fs w g = Inl (ReadFailure q)"
proof (induction w arbitrary: g)
  case Nil
  then show ?case by (simp add: matched_paths_def)
next
  case (Cons entry w)
  obtain r0 d0 f0 where e: "entry = (r0, d0, f0)" by (cases entry) auto
  show ?case
  proof (cases "\<exists>f1 \<in> set f0. endswith f1 ''.py'' \<and> contents fs (path_join r0 f1) = None")
    case True
    then obtain f1 where "f1 \<in> set f0" "endswith f1 ''.py''"
      "contents fs (path_join r0 f1) = None" by auto
    from scan_files_fail [OF this, of g] obtain f where
      f: "f \<in> set f0" "endswith f ''.py''" "contents fs (path_join r0 f) = None"
      "scan_files fs r0 f0 g = Inl (ReadFailure (path_join r0 f))" by blast
    show ?thesis
      unfolding e matched_paths_Cons using f by (intro exI [of _ "path_join r0 f"]) simp
  next
    case False
    then have "scan_files fs r0 f0 g = Inr (add_edges (concat (map (file_pairs fs r0) f0)) g)"
      by (intro scan_files_ok) auto
    moreover have "q0 \<in> set (matched_paths w)"
      using Cons.prems False unfolding e matched_paths_Cons by auto
    from Cons.IH [OF this Cons.prems(2)] have
      "\<exists>q. q \<in> set (matched_paths w) \<and> contents fs q = None
         \<and> scan_walk fs w (add_edges (concat (map (file_pairs fs r0) f0)) g) = Inl (ReadFailure q)" .
    ultimately show ?thesis unfolding e matched_paths_Cons by auto
  qed
qed

lemma matched_paths_iff:
  "q \<in> set (matched_paths w)
   \<longleftrightarrow> (\<exists>root dirs files f. (root, dirs, files) \<in> set w \<and> f \<in> set files
          \<and> endswith f ''.py'' \<and> q = path_join root f)"
proof
  assume "q \<in> set (matched_paths w)"
  then obtain entry where en: "entry \<in> set w"
    and q: "q \<in> set (case entry of (root, dirs, files) \<Rightarrow>
              map (path_join root) (filter (\<lambda>f. endswith f ''.py'') files))"
    by (auto simp: matched_paths_def)
  obtain root dirs files where e: "entry = (root, dirs, files)" by (cases entry) auto
  from q e obtain f where "f \<in> set files" "endswith f ''.py''" "q = path_join root f"
    by auto
  with en e show "\<exists>root dirs files f. (root, dirs, files) \<in> set w \<and> f \<in> set files
          \<and> endswith f ''.py'' \<and> q = path_join root f" by blast
next
  assume "\<exists>root dirs files f. (root, dirs, files) \<in> set w \<and> f \<in> set files
          \<and> endswith f ''.py'' \<and> q = path_join root f"
  then obtain root dirs files f where "(root, dirs, files) \<in> set w" "f \<in> set files"
    "endswith f ''.py''" "q = path_join root f" by blast
  then show "q \<in> set (matched_paths w)"
    by (auto simp: matched_paths_def intro!: bexI [of _ "(root, dirs, files)"])
qed

lemma import_pairs_source:
  "(u, v) \<in> set (import_pairs fs w) \<Longrightarrow> endswith u ''.py''"
  by (auto simp: import_pairs_def file_pairs_def split: if_splits sum.splits)

section \<open>Properties of the Graph Builder and of the critical nodes\<close>

lemmas eval_defs = os_walk_def endswith_def startswith_def path_join_def parse_imports_def
  readlines_def LF_def CR_def parse_line_def str_strip_def str_split_def isspace_def
  build_import_graph_def add_edge_def ensure_node_def store_key_def empty_graph_def Let_def

lemma docs_only_walk:
  "os_walk docs_only_fs ''./example-codebase''
     = [(''./example-codebase'', [''docs''], [''README.md'']),
        (''./example-codebase/docs'', [], [''notes.txt''])]"
  by (simp add: docs_only_fs_def eval_defs)

lemma unreadable_walk:
  "os_walk unreadable_fs ''./example-codebase''
     = [(''./example-codebase'', [], [''a.py'', ''b.py'', ''c.py''])]"
  by (simp add: unreadable_fs_def eval_defs)

lemma unreadable_build:
  "build_import_graph unreadable_fs ''./example-codebase''
     = Inl (ReadFailure ''./example-codebase/b.py'')"
  by (simp add: build_import_graph_def unreadable_walk)
     (simp add: unreadable_fs_def eval_defs)

lemma self_import_build:
  "build_import_graph self_import_fs ''./example-codebase''
     = Inr (add_edge ''a.py'' ''a.py'' empty_graph)"
  by (simp add: self_import_fs_def os_walk_def endswith_def startswith_def path_join_def parse_imports_def
  readlines_def LF_def CR_def parse_line_def str_strip_def str_split_def isspace_def
  build_import_graph_def  Let_def)

lemma repeated_import_build:
  "build_import_graph repeated_import_fs ''./example-codebase''
     = Inr (add_edge ''a.py'' ''os'' (add_edge ''a.py'' ''os'' empty_graph))"
  by (simp add: repeated_import_fs_def os_walk_def endswith_def startswith_def path_join_def parse_imports_def
  readlines_def LF_def CR_def parse_line_def str_strip_def str_split_def isspace_def
  build_import_graph_def  Let_def)

lemma find_cycle_empty: "find_cycle empty_graph = Inl NetworkXNoCycle"
  by (simp add: find_cycle_def empty_graph_def)

lemma empty_graph_counts:
  "number_of_nodes (empty_graph :: 'a digraph) = 0"
  "number_of_edges (empty_graph :: 'a digraph) = 0"
  "identify_critical_nodes (empty_graph :: 'a digraph) = []"
  by (simp_all add: number_of_nodes_def number_of_edges_def identify_critical_nodes_def
      in_degree_def empty_graph_def)

lemma draw_insights_empty:
  "draw_insights empty_graph = Inr (join [LF]
      [''Insights about the codebase:'',
       ''Total number of nodes (files and imports): 0'',
       ''Total number of edges (dependencies): 0'',
       ''Number of critical nodes (frequently imported): 0'',
       ''Critical nodes: '',
       ''No circular dependencies found.''])"
  by (simp add: draw_insights_def identify_circular_dependencies_def find_cycle_empty
      insight_lines_def empty_graph_counts str_nat.simps)

lemma build_Inr:
  assumes "build_import_graph fs p = Inr g"
  shows "g = add_edges (import_pairs fs (os_walk fs p)) empty_graph"
    and "represents g (set (import_pairs fs (os_walk fs p)))"
    and "\<And>q. q \<in> set (matched_paths (os_walk fs p)) \<Longrightarrow> contents fs q \<noteq> None"
proof -
  from scan_walk_Inr [OF assms [unfolded build_import_graph_def]]
  show g: "g = add_edges (import_pairs fs (os_walk fs p)) empty_graph"
    and "\<And>q. q \<in> set (matched_paths (os_walk fs p)) \<Longrightarrow> contents fs q \<noteq> None"
    by auto
  show "represents g (set (import_pairs fs (os_walk fs p)))"
    unfolding g by (rule represents_built)
qed

text \<open>
  Claim C5. When no file met by the walk of the root directory has a name ending in
  \<open>.py\<close>, \<open>build_import_graph\<close> returns the empty graph, which has 0 nodes and 0
  edges, and \<open>draw_insights\<close> returns, without an error, the summary whose count lines
  both say 0 and whose last line is \<open>No circular dependencies found.\<close>
\<close>

theorem no_source_files_summary:
  assumes "\<forall>(root, dirs, files) \<in> set (os_walk fs p). \<forall>f \<in> set files. \<not> endswith f ''.py''"
  shows "build_import_graph fs p = Inr empty_graph
     \<and> number_of_nodes (empty_graph :: string digraph) = 0
     \<and> number_of_edges (empty_graph :: string digraph) = 0
     \<and> draw_insights empty_graph = Inr (join [LF]
          [''Insights about the codebase:'',
           ''Total number of nodes (files and imports): 0'',
           ''Total number of edges (dependencies): 0'',
           ''Number of critical nodes (frequently imported): 0'',
           ''Critical nodes: '',
           ''No circular dependencies found.''])"
proof -
  have m: "matched_paths (os_walk fs p) = []"
  proof (rule ccontr)
    assume "matched_paths (os_walk fs p) \<noteq> []"
    then obtain q where "q \<in> set (matched_paths (os_walk fs p))"
      by (cases "matched_paths (os_walk fs p)") auto
    then show False using assms unfolding matched_paths_iff by fastforce
  qed
  have "import_pairs fs (os_walk fs p) = []"
  proof -
    have "file_pairs fs root f = []" if "(root, dirs, files) \<in> set (os_walk fs p)" "f \<in> set files"
      for root dirs files f
      using assms that by (auto simp: file_pairs_def)
    then show ?thesis by (auto simp: import_pairs_def)
  qed
  moreover have "scan_walk fs (os_walk fs p) empty_graph
      = Inr (add_edges (import_pairs fs (os_walk fs p)) empty_graph)"
    by (rule scan_walk_ok) (simp add: m)
  ultimately have "build_import_graph fs p = Inr empty_graph"
    by (simp add: build_import_graph_def)
  then show ?thesis
    by (simp add: draw_insights_empty) (simp add: number_of_nodes_def number_of_edges_def empty_graph_def)
qed

theorem no_source_files_summary_witness:
  "build_import_graph docs_only_fs ''./example-codebase'' = Inr empty_graph
   \<and> draw_insights empty_graph = Inr (join [LF]
          [''Insights about the codebase:'',
           ''Total number of nodes (files and imports): 0'',
           ''Total number of edges (dependencies): 0'',
           ''Number of critical nodes (frequently imported): 0'',
           ''Critical nodes: '',
           ''No circular dependencies found.''])"
proof -
  have h: "\<forall>(root, dirs, files) \<in> set (os_walk docs_only_fs ''./example-codebase'').
             \<forall>f \<in> set files. \<not> endswith f ''.py''"
    by (simp add: docs_only_walk endswith_def)
  from no_source_files_summary [OF h] show ?thesis by blast
qed

text \<open>
  Claim C8. When a file with a name ending in \<open>.py\<close> that the walk meets cannot be
  opened or read, \<open>parse_imports\<close> fails on a matched file and nothing catches it:
  \<open>build_import_graph\<close> returns that failure and no graph, and the request handler
  \<open>index\<close> returns the failure and no summary.
\<close>

theorem read_failure_aborts:
  assumes "(root, dirs, files) \<in> set (os_walk fs p)" "f \<in> set files" "endswith f ''.py''"
    "contents fs (path_join root f) = None"
  shows "\<exists>q. q \<in> set (matched_paths (os_walk fs p)) \<and> contents fs q = None
           \<and> parse_imports fs q = Inl (ReadFailure q)
           \<and> build_import_graph fs p = Inl (ReadFailure q)
           \<and> (p = ''./example-codebase'' \<longrightarrow> index fs = Inl (ReadFailure q))"
proof -
  have "path_join root f \<in> set (matched_paths (os_walk fs p))"
    unfolding matched_paths_iff using assms(1-3) by blast
  from scan_walk_fail [OF this assms(4), of empty_graph] obtain q where
    q: "q \<in> set (matched_paths (os_walk fs p))" "contents fs q = None"
    "scan_walk fs (os_walk fs p) empty_graph = Inl (ReadFailure q)" by blast
  then show ?thesis
    by (intro exI [of _ q]) (auto simp: build_import_graph_def index_def parse_imports_def)
qed

theorem read_failure_aborts_witness:
  "build_import_graph unreadable_fs ''./example-codebase''
     = Inl (ReadFailure ''./example-codebase/b.py'')
   \<and> index unreadable_fs = Inl (ReadFailure ''./example-codebase/b.py'')
   \<and> contents unreadable_fs ''./example-codebase/a.py'' \<noteq> None"
proof -
  have 1: "(''./example-codebase'', [], [''a.py'', ''b.py'', ''c.py''])
             \<in> set (os_walk unreadable_fs ''./example-codebase'')"
    by (simp add: unreadable_walk)
  have 2: "''b.py'' \<in> set [''a.py'', ''b.py'', ''c.py'']" by simp
  have 3: "endswith ''b.py'' ''.py''" by (simp add: endswith_def)
  have 4: "contents unreadable_fs (path_join ''./example-codebase'' ''b.py'') = None"
    by (simp add: unreadable_fs_def path_join_def startswith_def endswith_def)
  from read_failure_aborts [OF 1 2 3 4] obtain q where
    "build_import_graph unreadable_fs ''./example-codebase'' = Inl (ReadFailure q)"
    "index unreadable_fs = Inl (ReadFailure q)" by auto
  then show ?thesis
    by (simp add: unreadable_build) (simp add: unreadable_fs_def)
qed

lemma in_degree_counts_sources:
  "in_degree (add_edges es empty_graph)
     = map (\<lambda>n. (n, card {u. (u, n) \<in> set es})) (nodes (add_edges es empty_graph))
   \<and> identify_critical_nodes (add_edges es empty_graph)
     = filter (\<lambda>n. 1 < card {u. (u, n) \<in> set es}) (nodes (add_edges es empty_graph))
   \<and> (n \<in> set (identify_critical_nodes (add_edges es empty_graph))
        \<longleftrightarrow> 1 < card {u. (u, n) \<in> set es})
   \<and> (card {u. (u, n) \<in> set es} = 2
        \<longrightarrow> (n, 2) \<in> set (in_degree (add_edges es empty_graph))
            \<and> n \<in> set (identify_critical_nodes (add_edges es empty_graph)))
   \<and> (card {u. (u, n) \<in> set es} = 1
        \<longrightarrow> (n, 1) \<in> set (in_degree (add_edges es empty_graph))
            \<and> n \<notin> set (identify_critical_nodes (add_edges es empty_graph)))"
proof -
  let ?g = "add_edges es empty_graph"
  have r: "represents ?g (set es)" by (rule represents_built)
  have deg: "length (pred ?g m) = card {u. (u, m) \<in> set es}" for m
    by (rule represents_in_degree [OF r])
  have nd: "set (nodes ?g) = fst ` set es \<union> snd ` set es"
    using r by (simp add: represents_def)
  have a: "in_degree ?g = map (\<lambda>n. (n, card {u. (u, n) \<in> set es})) (nodes ?g)"
    by (simp add: in_degree_def deg)
  have b: "identify_critical_nodes ?g
             = filter (\<lambda>n. 1 < card {u. (u, n) \<in> set es}) (nodes ?g)"
    by (simp add: identify_critical_nodes_filter deg)
  have mem: "n \<in> set (nodes ?g)" if "0 < card {u. (u, n) \<in> set es}"
  proof -
    have "{u. (u, n) \<in> set es} \<noteq> {}"
    proof
      assume "{u. (u, n) \<in> set es} = {}"
      then have "card {u. (u, n) \<in> set es} = 0" by (simp only: card.empty)
      with that show False by simp
    qed
    then obtain u where "(u, n) \<in> set es" by blast
    then show ?thesis unfolding nd by (auto simp: image_iff intro: bexI [of _ "(u, n)"])
  qed
  have c: "n \<in> set (identify_critical_nodes ?g) \<longleftrightarrow> 1 < card {u. (u, n) \<in> set es}"
    unfolding b using mem by auto
  have d: "(n, card {u. (u, n) \<in> set es}) \<in> set (in_degree ?g)"
    if "0 < card {u. (u, n) \<in> set es}"
    unfolding a using mem [OF that] by (auto simp: image_iff)
  show ?thesis using a b c d by auto
qed

lemma two_files_build:
  "build_import_graph two_files_fs ''./example-codebase''
     = Inr (add_edges [(''a.py'', ''os''), (''a.py'', ''sys''), (''b.py'', ''os'')] empty_graph)"
  "import_pairs two_files_fs (os_walk two_files_fs ''./example-codebase'')
     = [(''a.py'', ''os''), (''a.py'', ''sys''), (''b.py'', ''os'')]"
  by (simp_all add: two_files_fs_def import_pairs_def file_pairs_def os_walk_def endswith_def
      startswith_def path_join_def parse_imports_def readlines_def LF_def CR_def parse_line_def
      str_strip_def str_split_def isspace_def build_import_graph_def)

text \<open>
  Claim C2, as the code has it. The in-degree of a node is the number of distinct source
  nodes with an edge to it, and \<open>identify_critical_nodes\<close> returns the nodes whose
  in-degree exceeds 1, in the order of the node list: a node is in the result exactly when
  more than one source node has an edge to it; with two it has in-degree 2 and is in the
  result, with one it has in-degree 1 and is not. In a graph returned by
  \<open>build_import_graph\<close> the source nodes are the base names of the files read, so the
  in-degree of a name is the number of distinct base names of the files importing it.
\<close>

theorem critical_nodes_by_in_degree:
  "in_degree (add_edges es empty_graph)
     = map (\<lambda>n. (n, card {u. (u, n) \<in> set es})) (nodes (add_edges es empty_graph))
   \<and> identify_critical_nodes (add_edges es empty_graph)
     = filter (\<lambda>n. 1 < card {u. (u, n) \<in> set es}) (nodes (add_edges es empty_graph))
   \<and> (n \<in> set (identify_critical_nodes (add_edges es empty_graph))
        \<longleftrightarrow> 1 < card {u. (u, n) \<in> set es})
   \<and> (card {u. (u, n) \<in> set es} = 2
        \<longrightarrow> (n, 2) \<in> set (in_degree (add_edges es empty_graph))
            \<and> n \<in> set (identify_critical_nodes (add_edges es empty_graph)))
   \<and> (card {u. (u, n) \<in> set es} = 1
        \<longrightarrow> (n, 1) \<in> set (in_degree (add_edges es empty_graph))
            \<and> n \<notin> set (identify_critical_nodes (add_edges es empty_graph)))
   \<and> (build_import_graph fs p = Inr g \<longrightarrow>
         in_degree g
           = map (\<lambda>n. (n, card {file. (file, n) \<in> set (import_pairs fs (os_walk fs p))}))
               (nodes g)
         \<and> identify_critical_nodes g
           = filter (\<lambda>n. 1 < card {file. (file, n) \<in> set (import_pairs fs (os_walk fs p))})
               (nodes g)
         \<and> (n \<in> set (identify_critical_nodes g)
              \<longleftrightarrow> 1 < card {file. (file, n) \<in> set (import_pairs fs (os_walk fs p))}))"
proof -
  have "in_degree g
           = map (\<lambda>n. (n, card {file. (file, n) \<in> set (import_pairs fs (os_walk fs p))}))
               (nodes g)
         \<and> identify_critical_nodes g
           = filter (\<lambda>n. 1 < card {file. (file, n) \<in> set (import_pairs fs (os_walk fs p))})
               (nodes g)
         \<and> (n \<in> set (identify_critical_nodes g)
              \<longleftrightarrow> 1 < card {file. (file, n) \<in> set (import_pairs fs (os_walk fs p))})"
    if b: "build_import_graph fs p = Inr g"
  proof -
    have g: "g = add_edges (import_pairs fs (os_walk fs p)) empty_graph"
      by (rule build_Inr(1) [OF b])
    show ?thesis
      unfolding g using in_degree_counts_sources [of "import_pairs fs (os_walk fs p)" n] by blast
  qed
  with in_degree_counts_sources [of es n] show ?thesis by blast
qed

theorem critical_nodes_by_in_degree_witness:
  "card {u. (u, ''os'') \<in> set shared_import_pairs} = 2
   \<and> (''os'', 2) \<in> set (in_degree (add_edges shared_import_pairs empty_graph))
   \<and> ''os'' \<in> set (identify_critical_nodes (add_edges shared_import_pairs empty_graph))
   \<and> card {u. (u, ''sys'') \<in> set shared_import_pairs} = 1
   \<and> (''sys'', 1) \<in> set (in_degree (add_edges shared_import_pairs empty_graph))
   \<and> ''sys'' \<notin> set (identify_critical_nodes (add_edges shared_import_pairs empty_graph))
   \<and> build_import_graph two_files_fs ''./example-codebase''
       = Inr (add_edges [(''a.py'', ''os''), (''a.py'', ''sys''), (''b.py'', ''os'')] empty_graph)
   \<and> card {file. (file, ''os'') \<in> set (import_pairs two_files_fs
               (os_walk two_files_fs ''./example-codebase''))} = 2
   \<and> ''os'' \<in> set (identify_critical_nodes
         (add_edges [(''a.py'', ''os''), (''a.py'', ''sys''), (''b.py'', ''os'')] empty_graph))
   \<and> card {file. (file, ''sys'') \<in> set (import_pairs two_files_fs
               (os_walk two_files_fs ''./example-codebase''))} = 1
   \<and> ''sys'' \<notin> set (identify_critical_nodes
         (add_edges [(''a.py'', ''os''), (''a.py'', ''sys''), (''b.py'', ''os'')] empty_graph))"
proof -
  let ?g = "add_edges [(''a.py'', ''os''), (''a.py'', ''sys''), (''b.py'', ''os'')] empty_graph"
  have "{u. (u, ''os'') \<in> set shared_import_pairs} = {''a.py'', ''b.py''}"
    by (auto simp: shared_import_pairs_def)
  then have 1: "card {u. (u, ''os'') \<in> set shared_import_pairs} = 2" by simp
  have "{u. (u, ''sys'') \<in> set shared_import_pairs} = {''a.py''}"
    by (auto simp: shared_import_pairs_def)
  then have 2: "card {u. (u, ''sys'') \<in> set shared_import_pairs} = 1" by simp
  have "{file. (file, ''os'') \<in> set (import_pairs two_files_fs
               (os_walk two_files_fs ''./example-codebase''))} = {''a.py'', ''b.py''}"
    unfolding two_files_build(2) by auto
  then have 3: "card {file. (file, ''os'') \<in> set (import_pairs two_files_fs
               (os_walk two_files_fs ''./example-codebase''))} = 2" by simp
  have "{file. (file, ''sys'') \<in> set (import_pairs two_files_fs
               (os_walk two_files_fs ''./example-codebase''))} = {''a.py''}"
    unfolding two_files_build(2) by auto
  then have 4: "card {file. (file, ''sys'') \<in> set (import_pairs two_files_fs
               (os_walk two_files_fs ''./example-codebase''))} = 1" by simp
  have c3: "1 < card {file. (file, ''os'') \<in> set (import_pairs two_files_fs
               (os_walk two_files_fs ''./example-codebase''))}" using 3 by simp
  have c4: "\<not> 1 < card {file. (file, ''sys'') \<in> set (import_pairs two_files_fs
               (os_walk two_files_fs ''./example-codebase''))}" using 4 by simp
  note b = two_files_build(1)
  from 1 2 3 4 c3 c4 b
    critical_nodes_by_in_degree [of shared_import_pairs "''os''" two_files_fs
      "''./example-codebase''" ?g]
    critical_nodes_by_in_degree [of shared_import_pairs "''sys''" two_files_fs
      "''./example-codebase''" ?g]
  show ?thesis by blast
qed

text \<open>
  A file enters the graph under its base name: two files of the same name in different
  directories are one source node, and a name both import has in-degree 1.
\<close>

lemma same_name_files_one_source:
  "matched_paths (os_walk same_name_fs ''./example-codebase'')
     = [''./example-codebase/a/util.py'', ''./example-codebase/b/util.py'']"
  "build_import_graph same_name_fs ''./example-codebase''
     = Inr (add_edge ''util.py'' ''os'' empty_graph)"
  "in_degree (add_edge ''util.py'' ''os'' empty_graph) = [(''util.py'', 0), (''os'', 1)]"
  "identify_critical_nodes (add_edge ''util.py'' ''os'' (empty_graph :: string digraph)) = []"
  by (simp_all add: same_name_fs_def matched_paths_def identify_critical_nodes_def in_degree_def
      eval_defs)

lemma same_name_importing_files:
  "importing_files same_name_fs (os_walk same_name_fs ''./example-codebase'') ''os''
     = [''./example-codebase/a/util.py'', ''./example-codebase/b/util.py'']"
  by (simp add: importing_files_def same_name_files_one_source(1))
     (simp add: same_name_fs_def parse_imports_def readlines_def LF_def CR_def parse_line_def
      str_strip_def str_split_def isspace_def startswith_def)

text \<open>
  Claim C2 as the specification words it, with the in-degree as the number of distinct
  importing files, fails: here a name is imported by two distinct files, has in-degree 1
  and is not a critical node.
\<close>

theorem critical_nodes_distinct_files_counterexample:
  "build_import_graph same_name_fs ''./example-codebase''
     = Inr (add_edge ''util.py'' ''os'' empty_graph)
   \<and> importing_files same_name_fs (os_walk same_name_fs ''./example-codebase'') ''os''
     = [''./example-codebase/a/util.py'', ''./example-codebase/b/util.py'']
   \<and> card (set (importing_files same_name_fs
             (os_walk same_name_fs ''./example-codebase'') ''os'')) = 2
   \<and> in_degree (add_edge ''util.py'' ''os'' empty_graph) = [(''util.py'', 0), (''os'', 1)]
   \<and> (''os'', 2) \<notin> set (in_degree (add_edge ''util.py'' ''os'' empty_graph))
   \<and> ''os'' \<notin> set (identify_critical_nodes (add_edge ''util.py'' ''os'' empty_graph))"
  by (simp add: same_name_importing_files same_name_files_one_source)

text \<open>
  Claim C6. A successful build is determined by the directory contents: every run on
  them gives the same nodes, edges and counts, and running the loops of the builder once
  more on top of the graph it returned leaves that graph unchanged. The graph is simple:
  no node and no edge is held twice, its edges are the set of the pairs of file name and
  extracted name, so a name imported several times by one file gives one edge.
\<close>

theorem build_idempotent_no_multiplicity:
  assumes "build_import_graph fs p = Inr g"
  shows "g = add_edges (import_pairs fs (os_walk fs p)) empty_graph
     \<and> scan_walk fs (os_walk fs p) g = Inr g
     \<and> (\<forall>g'. build_import_graph fs p = Inr g' \<longrightarrow>
           nodes g' = nodes g \<and> graph_edges g' = graph_edges g
           \<and> number_of_nodes g' = number_of_nodes g \<and> number_of_edges g' = number_of_edges g)
     \<and> distinct (nodes g)
     \<and> set (nodes g) = fst ` set (import_pairs fs (os_walk fs p))
                       \<union> snd ` set (import_pairs fs (os_walk fs p))
     \<and> distinct (graph_edges g)
     \<and> set (graph_edges g) = set (import_pairs fs (os_walk fs p))
     \<and> number_of_edges g = card (set (import_pairs fs (os_walk fs p)))"
proof -
  let ?es = "import_pairs fs (os_walk fs p)"
  note b = build_Inr [OF assms]
  have again: "scan_walk fs (os_walk fs p) g = Inr (add_edges ?es g)"
    by (rule scan_walk_ok) (rule b(3))
  have same: "add_edges ?es g = g"
    by (rule add_edges_present [OF b(2)]) simp
  have e: "set (graph_edges g) = set ?es" "distinct (graph_edges g)"
    by (rule represents_graph_edges [OF b(2)])+
  have "number_of_edges g = length (graph_edges g)" by (simp add: length_graph_edges)
  also have "\<dots> = card (set (graph_edges g))" using e(2) by (simp add: distinct_card)
  finally have n: "number_of_edges g = card (set ?es)" by (simp add: e(1))
  have nd: "distinct (nodes g)" "set (nodes g) = fst ` set ?es \<union> snd ` set ?es"
    using b(2) by (simp_all add: represents_def)
  show ?thesis using b(1) again same e n nd assms by auto
qed

theorem build_idempotent_no_multiplicity_witness:
  "build_import_graph repeated_import_fs ''./example-codebase''
     = Inr (add_edge ''a.py'' ''os'' empty_graph)
   \<and> import_pairs repeated_import_fs (os_walk repeated_import_fs ''./example-codebase'')
     = [(''a.py'', ''os''), (''a.py'', ''os'')]
   \<and> graph_edges (add_edge ''a.py'' ''os'' empty_graph) = [(''a.py'', ''os'')]
   \<and> number_of_edges (add_edge ''a.py'' ''os'' empty_graph) = 1
   \<and> scan_walk repeated_import_fs (os_walk repeated_import_fs ''./example-codebase'')
        (add_edge ''a.py'' ''os'' empty_graph) = Inr (add_edge ''a.py'' ''os'' empty_graph)"
proof -
  have same: "add_edge ''a.py'' ''os'' (add_edge ''a.py'' ''os'' empty_graph)
        = add_edge ''a.py'' ''os'' (empty_graph :: string digraph)"
    by (simp add: add_edge_def ensure_node_def store_key_def empty_graph_def)
  have b: "build_import_graph repeated_import_fs ''./example-codebase''
     = Inr (add_edge ''a.py'' ''os'' empty_graph)"
    by (simp add: repeated_import_build same)
  have ip: "import_pairs repeated_import_fs (os_walk repeated_import_fs ''./example-codebase'')
     = [(''a.py'', ''os''), (''a.py'', ''os'')]"
    by (simp add: repeated_import_fs_def import_pairs_def file_pairs_def os_walk_def endswith_def
        startswith_def path_join_def parse_imports_def readlines_def LF_def CR_def parse_line_def
        str_strip_def str_split_def isspace_def)
  have ge: "graph_edges (add_edge ''a.py'' ''os'' empty_graph) = [(''a.py'', ''os'')]"
    by (simp add: graph_edges_def add_edge_def ensure_node_def store_key_def empty_graph_def)
  from build_idempotent_no_multiplicity [OF b] ip ge show ?thesis
    by (simp add: b)
qed

lemma is_edge_graph_edges:
  "is_edge g e \<Longrightarrow> (fst e, fst (snd e)) \<in> set (graph_edges g)"
  by (cases e) (auto simp: is_edge_def edges_from_def set_graph_edges split: if_splits)

text \<open>
  Claim C9. In a graph returned by \<open>build_import_graph\<close> the source of every edge has
  a name ending in \<open>.py\<close> and its target is an extracted import name; so a target that
  ends in \<open>.py\<close> is an extracted name ending in \<open>.py\<close>, and the graph has a cycle only if
  some extracted import name ends in \<open>.py\<close>.
\<close>

theorem edge_sources_are_files:
  assumes "build_import_graph fs p = Inr g"
  shows "(\<forall>(u, v) \<in> set (graph_edges g).
            endswith u ''.py'' \<and> v \<in> snd ` set (import_pairs fs (os_walk fs p)))
     \<and> (has_cycle g \<longrightarrow>
          (\<exists>name \<in> snd ` set (import_pairs fs (os_walk fs p)). endswith name ''.py''))"
proof -
  let ?es = "import_pairs fs (os_walk fs p)"
  have e: "set (graph_edges g) = set ?es"
    by (rule represents_graph_edges [OF build_Inr(2) [OF assms]])
  have 1: "\<forall>(u, v) \<in> set (graph_edges g). endswith u ''.py'' \<and> v \<in> snd ` set ?es"
    unfolding e by (auto simp: image_iff dest: import_pairs_source intro: bexI [of _ "(u, v)" for u v])
  have 2: "\<exists>name \<in> snd ` set ?es. endswith name ''.py''" if "has_cycle g"
  proof -
    from that obtain c where c: "c \<noteq> []" "list_all (is_edge g) c"
      "fst (snd (last c)) = fst (hd c)"
      by (auto simp: has_cycle_def cycle_in_def)
    have "is_edge g (hd c)" "is_edge g (last c)"
      using c(1,2) by (auto simp: list_all_iff)
    then have h: "(fst (hd c), fst (snd (hd c))) \<in> set ?es"
      and l: "(fst (last c), fst (hd c)) \<in> set ?es"
      using is_edge_graph_edges [of g "hd c"] is_edge_graph_edges [of g "last c"] c(3) e
      by auto
    from h have "endswith (fst (hd c)) ''.py''" by (rule import_pairs_source)
    moreover from l have "fst (hd c) \<in> snd ` set ?es" by (auto simp: image_iff intro: bexI [of _ "(fst (last c), fst (hd c))"])
    ultimately show ?thesis by blast
  qed
  show ?thesis using 1 2 by blast
qed

theorem edge_sources_are_files_witness:
  "build_import_graph self_import_fs ''./example-codebase''
     = Inr (add_edge ''a.py'' ''a.py'' empty_graph)
   \<and> graph_edges (add_edge ''a.py'' ''a.py'' empty_graph) = [(''a.py'', ''a.py'')]
   \<and> has_cycle (add_edge ''a.py'' ''a.py'' (empty_graph :: string digraph))
   \<and> (\<exists>name \<in> snd ` set (import_pairs self_import_fs
          (os_walk self_import_fs ''./example-codebase'')). endswith name ''.py'')"
proof -
  have ge: "graph_edges (add_edge ''a.py'' ''a.py'' empty_graph) = [(''a.py'', ''a.py'')]"
    by (simp add: graph_edges_def add_edge_def ensure_node_def store_key_def empty_graph_def)
  have "cycle_in (add_edge ''a.py'' ''a.py'' (empty_graph :: string digraph))
          [(''a.py'', ''a.py'', FORWARD)]"
    by (simp add: cycle_in_def is_edge_def edges_from_def add_edge_def ensure_node_def
        store_key_def empty_graph_def)
  then have hc: "has_cycle (add_edge ''a.py'' ''a.py'' (empty_graph :: string digraph))"
    unfolding has_cycle_def by blast
  from edge_sources_are_files [OF self_import_build] hc ge show ?thesis
    by (simp add: self_import_build)
qed

section \<open>Properties of the cycle search and of the summary\<close>

lemma edge_dfs_loop_yield:
  assumes "iter_pos vn pos cur < length (edges_from G cur)"
    and "edge_id (edges_from G cur ! iter_pos vn pos cur) \<notin> ve"
  shows "edge_dfs_loop G (cur # S) vn ve pos
         = edges_from G cur ! iter_pos vn pos cur
           # edge_dfs_loop G (fst (snd (edges_from G cur ! iter_pos vn pos cur)) # cur # S)
               (insert cur vn) (insert (edge_id (edges_from G cur ! iter_pos vn pos cur)) ve)
               (pos(cur := Suc (iter_pos vn pos cur)))"
  using assms by (subst edge_dfs_loop.simps(2)) (auto simp: iter_pos_def Let_def)

lemma edge_dfs_loop_skip:
  assumes "iter_pos vn pos cur < length (edges_from G cur)"
    and "edge_id (edges_from G cur ! iter_pos vn pos cur) \<in> ve"
  shows "edge_dfs_loop G (cur # S) vn ve pos
         = edge_dfs_loop G (cur # S) (insert cur vn) ve (pos(cur := Suc (iter_pos vn pos cur)))"
  using assms by (subst edge_dfs_loop.simps(2)) (auto simp: iter_pos_def Let_def)

lemma edge_dfs_loop_pop:
  assumes "\<not> iter_pos vn pos cur < length (edges_from G cur)"
  shows "edge_dfs_loop G (cur # S) vn ve pos
         = edge_dfs_loop G S (insert cur vn) ve (pos(cur := iter_pos vn pos cur))"
proof -
  have "(if cur \<notin> vn then pos(cur := 0) else pos) = pos(cur := iter_pos vn pos cur)"
    by (auto simp: iter_pos_def)
  then show ?thesis
    using assms by (subst edge_dfs_loop.simps(2)) (auto simp: iter_pos_def Let_def)
qed

lemma edge_dfs_loop_induct [case_names Nil Yield Skip Pop]:
  assumes nil: "\<And>vn ve pos. P [] vn ve pos"
    and yield: "\<And>cur S vn ve pos p e.
        p = iter_pos vn pos cur \<Longrightarrow> p < length (edges_from G cur) \<Longrightarrow>
        e = edges_from G cur ! p \<Longrightarrow> edge_id e \<notin> ve \<Longrightarrow>
        P (fst (snd e) # cur # S) (insert cur vn) (insert (edge_id e) ve) (pos(cur := Suc p)) \<Longrightarrow>
        P (cur # S) vn ve pos"
    and skip: "\<And>cur S vn ve pos p e.
        p = iter_pos vn pos cur \<Longrightarrow> p < length (edges_from G cur) \<Longrightarrow>
        e = edges_from G cur ! p \<Longrightarrow> edge_id e \<in> ve \<Longrightarrow>
        P (cur # S) (insert cur vn) ve (pos(cur := Suc p)) \<Longrightarrow>
        P (cur # S) vn ve pos"
    and pop: "\<And>cur S vn ve pos p.
        p = iter_pos vn pos cur \<Longrightarrow> \<not> p < length (edges_from G cur) \<Longrightarrow>
        P S (insert cur vn) ve (pos(cur := p)) \<Longrightarrow>
        P (cur # S) vn ve pos"
  shows "P S vn ve pos"
proof -
  have "G' = G \<Longrightarrow> P S vn ve pos" for G'
  proof (induction G' S vn ve pos rule: edge_dfs_loop.induct)
    case (1 G' vn ve pos)
    show ?case by (rule nil)
  next
    case (2 G' cur S vn ve pos)
    note G = \<open>G' = G\<close>
    let ?p = "iter_pos vn pos cur"
    let ?pos1 = "if cur \<notin> vn then pos(cur := 0) else pos"
    have p1: "?pos1 cur = ?p" by (simp add: iter_pos_def)
    have p2: "?pos1(cur := Suc (?pos1 cur)) = pos(cur := Suc ?p)"
      by (auto simp: iter_pos_def)
    have p4: "?pos1(cur := Suc ?p) = pos(cur := Suc ?p)"
      by (auto simp: iter_pos_def)
    have p3: "?pos1 = pos(cur := ?p)" by (auto simp: iter_pos_def)
    show ?case
    proof (cases "?p < length (edges_from G cur)")
      case True
      then have lt: "?pos1 cur < length (edges_from G' cur)" by (simp only: p1 G)
      show ?thesis
      proof (cases "edge_id (edges_from G cur ! ?p) \<in> ve")
        case e: True
        then have m: "\<not> edge_id (edges_from G' cur ! ?pos1 cur) \<notin> ve" by (simp only: p1 G) simp
        have "P (cur # S) (insert cur vn) ve (?pos1(cur := Suc (?pos1 cur)))"
          by (rule "2.IH"(2) [OF refl refl refl lt refl refl refl m G])
        then show ?thesis
          unfolding p2 by (rule skip [OF refl True refl e])
      next
        case e: False
        then have m: "edge_id (edges_from G' cur ! ?pos1 cur) \<notin> ve" by (simp only: p1 G) simp
        have "P (fst (snd (edges_from G' cur ! ?pos1 cur)) # cur # S) (insert cur vn)
                (insert (edge_id (edges_from G' cur ! ?pos1 cur)) ve)
                (?pos1(cur := Suc (?pos1 cur)))"
          by (rule "2.IH"(1) [OF refl refl refl lt refl refl refl m G])
        then show ?thesis
          unfolding p1 p4 G by (rule yield [OF refl True refl e])
      qed
    next
      case False
      then have nlt: "\<not> ?pos1 cur < length (edges_from G' cur)" by (simp only: p1 G) simp
      have "P S (insert cur vn) ve ?pos1"
        by (rule "2.IH"(3) [OF refl refl refl nlt G])
      then show ?thesis unfolding p3 by (rule pop [OF refl False])
    qed
  qed
  then show ?thesis by simp
qed

lemma heads_simps [simp]:
  "heads [] = []" "heads (e # es) = fst (snd e) # heads es" "heads (xs @ ys) = heads xs @ heads ys"
  by (simp_all add: heads_def)

lemma edges_from_D:
  assumes "e \<in> set (edges_from G n)"
  shows "fst e = n" "snd (snd e) = FORWARD" "n \<in> set (nodes G)" "fst (snd e) \<in> set (succ G n)"
  using assms by (auto simp: edges_from_def split: if_splits)

lemma is_edge_nth: "p < length (edges_from G n) \<Longrightarrow> is_edge G (edges_from G n ! p)"
  using edges_from_D(1) [of "edges_from G n ! p" G n] by (simp add: is_edge_def)

lemma edge_dfs_loop_is_edge:
  "e \<in> set (edge_dfs_loop G S vn ve pos) \<Longrightarrow> is_edge G e"
proof (induction S vn ve pos rule: edge_dfs_loop_induct [where G = G])
  case (Nil vn ve pos)
  then show ?case by simp
next
  case (Yield cur S vn ve pos p e0)
  let ?L = "edge_dfs_loop G (fst (snd e0) # cur # S)
      (insert cur vn) (insert (edge_id e0) ve) (pos(cur := Suc p))"
  have L: "edge_dfs_loop G (cur # S) vn ve pos = e0 # ?L"
    using edge_dfs_loop_yield [of vn pos cur G ve S] Yield.hyps by simp
  have "is_edge G e0" using Yield.hyps is_edge_nth [of p G cur] by simp
  moreover have "e = e0 \<or> e \<in> set ?L" using Yield.prems unfolding L by simp
  ultimately show ?case using Yield.IH by blast
next
  case (Skip cur S vn ve pos p e0)
  have L: "edge_dfs_loop G (cur # S) vn ve pos
             = edge_dfs_loop G (cur # S) (insert cur vn) ve (pos(cur := Suc p))"
    using edge_dfs_loop_skip [of vn pos cur G ve S] Skip.hyps by simp
  show ?case by (rule Skip.IH) (use Skip.prems in \<open>simp only: L\<close>)
next
  case (Pop cur S vn ve pos p)
  have L: "edge_dfs_loop G (cur # S) vn ve pos
             = edge_dfs_loop G S (insert cur vn) ve (pos(cur := p))"
    using edge_dfs_loop_pop [of vn pos cur G S ve] Pop.hyps by simp
  show ?case by (rule Pop.IH) (use Pop.prems in \<open>simp only: L\<close>)
qed

lemma edge_dfs_loop_tail:
  "edge_dfs_loop G S vn ve pos = xs @ e # ys \<Longrightarrow> fst e \<in> set S \<union> set (heads xs)"
proof (induction S vn ve pos arbitrary: xs rule: edge_dfs_loop_induct [where G = G])
  case (Nil vn ve pos)
  then show ?case by simp
next
  case (Yield cur S vn ve pos p e0)
  define L where "L = edge_dfs_loop G (fst (snd e0) # cur # S)
      (insert cur vn) (insert (edge_id e0) ve) (pos(cur := Suc p))"
  have "edge_dfs_loop G (cur # S) vn ve pos = e0 # L"
    unfolding L_def using edge_dfs_loop_yield [of vn pos cur G ve S] Yield.hyps by simp
  then have L: "e0 # L = xs @ e # ys" using Yield.prems by simp
  have t: "fst e0 = cur"
    using Yield.hyps edges_from_D(1) [of e0 G cur] by simp
  show ?case
  proof (cases xs)
    case Nil
    with L have "e = e0" by simp
    with t show ?thesis by simp
  next
    case (Cons x xs')
    with L have x: "x = e0" and r: "L = xs' @ e # ys" by simp_all
    have "fst e \<in> set (fst (snd e0) # cur # S) \<union> set (heads xs')"
      by (rule Yield.IH) (use r in \<open>simp only: L_def\<close>)
    then show ?thesis unfolding Cons x by auto
  qed
next
  case (Skip cur S vn ve pos p e0)
  have "edge_dfs_loop G (cur # S) (insert cur vn) ve (pos(cur := Suc p)) = xs @ e # ys"
    using edge_dfs_loop_skip [of vn pos cur G ve S] Skip.hyps Skip.prems by simp
  then show ?case by (rule Skip.IH)
next
  case (Pop cur S vn ve pos p)
  have "edge_dfs_loop G S (insert cur vn) ve (pos(cur := p)) = xs @ e # ys"
    using edge_dfs_loop_pop [of vn pos cur G S ve] Pop.hyps Pop.prems by simp
  from Pop.IH [OF this] show ?case by auto
qed

lemma consumed_step:
  assumes "consumed G vn ve pos" "p = iter_pos vn pos cur" "p < length (edges_from G cur)"
    "edge_id (edges_from G cur ! p) \<in> ve'" "ve \<subseteq> ve'"
  shows "consumed G (insert cur vn) ve' (pos(cur := Suc p))"
  using assms
  by (auto simp: consumed_def iter_pos_def take_Suc_conv_app_nth split: if_splits)

lemma consumed_pop:
  assumes "consumed G vn ve pos" "p = iter_pos vn pos cur"
  shows "consumed G (insert cur vn) ve (pos(cur := p))"
  using assms by (auto simp: consumed_def iter_pos_def split: if_splits)

lemma edge_dfs_loop_complete:
  "consumed G vn ve pos \<Longrightarrow> n \<in> set S \<union> set (heads (edge_dfs_loop G S vn ve pos))
   \<Longrightarrow> edge_id ` set (edges_from G n) \<subseteq> ve \<union> edge_id ` set (edge_dfs_loop G S vn ve pos)"
proof (induction S vn ve pos rule: edge_dfs_loop_induct [where G = G])
  case (Nil vn ve pos)
  then show ?case by simp
next
  case (Yield cur S vn ve pos p e0)
  define L where "L = edge_dfs_loop G (fst (snd e0) # cur # S)
      (insert cur vn) (insert (edge_id e0) ve) (pos(cur := Suc p))"
  have L: "edge_dfs_loop G (cur # S) vn ve pos = e0 # L"
    unfolding L_def using edge_dfs_loop_yield [of vn pos cur G ve S] Yield.hyps by simp
  have c: "consumed G (insert cur vn) (insert (edge_id e0) ve) (pos(cur := Suc p))"
    by (rule consumed_step [OF Yield.prems(1) Yield.hyps(1,2)]) (use Yield.hyps in auto)
  have "n \<in> set (fst (snd e0) # cur # S) \<union> set (heads L)"
    using Yield.prems(2) unfolding L by auto
  then have "edge_id ` set (edges_from G n) \<subseteq> insert (edge_id e0) ve \<union> edge_id ` set L"
    unfolding L_def by (rule Yield.IH [OF c])
  then show ?case unfolding L by auto
next
  case (Skip cur S vn ve pos p e0)
  define L where "L = edge_dfs_loop G (cur # S) (insert cur vn) ve (pos(cur := Suc p))"
  have L: "edge_dfs_loop G (cur # S) vn ve pos = L"
    unfolding L_def using edge_dfs_loop_skip [of vn pos cur G ve S] Skip.hyps by simp
  have c: "consumed G (insert cur vn) ve (pos(cur := Suc p))"
    by (rule consumed_step [OF Skip.prems(1) Skip.hyps(1,2)]) (use Skip.hyps in auto)
  have "n \<in> set (cur # S) \<union> set (heads L)" using Skip.prems(2) unfolding L by simp
  then have "edge_id ` set (edges_from G n) \<subseteq> ve \<union> edge_id ` set L"
    unfolding L_def by (rule Skip.IH [OF c])
  then show ?case unfolding L .
next
  case (Pop cur S vn ve pos p)
  define L where "L = edge_dfs_loop G S (insert cur vn) ve (pos(cur := p))"
  have L: "edge_dfs_loop G (cur # S) vn ve pos = L"
    unfolding L_def using edge_dfs_loop_pop [of vn pos cur G S ve] Pop.hyps by simp
  have c: "consumed G (insert cur vn) ve (pos(cur := p))"
    by (rule consumed_pop [OF Pop.prems(1) Pop.hyps(1)])
  show ?case
  proof (cases "n = cur")
    case True
    have "take p (edges_from G cur) = edges_from G cur" using Pop.hyps by simp
    moreover have "edge_id ` set (take p (edges_from G cur)) \<subseteq> ve"
      using c by (simp add: consumed_def)
    ultimately show ?thesis using True by auto
  next
    case False
    then have "n \<in> set S \<union> set (heads L)" using Pop.prems(2) unfolding L by auto
    then have "edge_id ` set (edges_from G n) \<subseteq> ve \<union> edge_id ` set L"
      unfolding L_def by (rule Pop.IH [OF c])
    then show ?thesis unfolding L .
  qed
qed

lemma tailhead_simps [simp]: "fst (tailhead e) = fst e" "snd (tailhead e) = fst (snd e)"
  by (simp_all add: tailhead_def)

lemma chain_snoc:
  "chain (xs @ [e]) = (chain xs \<and> (xs = [] \<or> fst (snd (last xs)) = fst e))"
  by (induction xs rule: chain.induct) auto

lemma chain_Cons: "chain (e # es) = (chain es \<and> (es = [] \<or> fst (snd e) = fst (hd es)))"
  by (cases es) auto

lemma tails_of_chain:
  "chain c \<Longrightarrow> c \<noteq> [] \<Longrightarrow> set (map fst c) = insert (fst (hd c)) (set (heads (butlast c)))"
  by (induction c rule: chain.induct) auto

lemma trim_cycle_props:
  "chain c \<Longrightarrow> f \<in> set (map fst c) \<Longrightarrow>
   trim_cycle f c \<noteq> [] \<and> chain (trim_cycle f c) \<and> fst (hd (trim_cycle f c)) = f
   \<and> last (trim_cycle f c) = last c \<and> set (trim_cycle f c) \<subseteq> set c"
proof (induction f c rule: trim_cycle.induct)
  case (1 f)
  then show ?case by simp
next
  case (2 f e)
  then show ?case by simp
next
  case (3 f e e' es)
  show ?case
  proof (cases "fst e = f")
    case True
    then show ?thesis using "3.prems" by simp
  next
    case False
    then have m: "f \<in> set (map fst (e' # es))" using "3.prems"(2) by auto
    have c: "chain (e' # es)" using "3.prems"(1) by simp
    have t: "trim_cycle f (e # e' # es) = trim_cycle f (e' # es)" using False by simp
    from "3.IH" [OF _ c m] False show ?thesis unfolding t by auto
  qed
qed

lemma path_ok_append:
  assumes "path_ok base es active" "endnode base es = fst e" "fst (snd e) \<notin> active"
  shows "path_ok base (e # es) (insert (fst (snd e)) active)"
proof (cases "es = []")
  case True
  then show ?thesis using assms by (auto simp: path_ok_def endnode_def)
next
  case False
  then have "chain (rev (e # es))"
    using assms(1,2) by (simp add: path_ok_def endnode_def chain_snoc last_rev)
  then show ?thesis using False assms by (auto simp: path_ok_def)
qed

lemma path_ok_pop:
  assumes "path_ok base (e # es) active"
  shows "fst (snd e) \<in> active" "path_ok base es (active - {fst (snd e)})"
proof -
  show "fst (snd e) \<in> active" using assms by (simp add: path_ok_def)
  have "chain (rev es)" using assms by (simp add: path_ok_def chain_snoc)
  moreover have "es \<noteq> [] \<longrightarrow> fst (last es) = base" using assms by (auto simp: path_ok_def)
  moreover have "distinct (base # heads es)" "fst (snd e) \<noteq> base" "fst (snd e) \<notin> set (heads es)"
    using assms by (auto simp: path_ok_def)
  moreover have "active = insert base (insert (fst (snd e)) (set (heads es)))"
    using assms by (auto simp: path_ok_def)
  ultimately show "path_ok base es (active - {fst (snd e)})"
    unfolding path_ok_def by auto
qed

lemma pop_until_ok:
  "path_ok base es active \<Longrightarrow>
   \<exists>es' active' base'. pop_until t es active = Inr (es', active')
      \<and> path_ok base' es' active' \<and> endnode base' es' = t \<and> set es' \<subseteq> set es"
proof (induction es arbitrary: active)
  case Nil
  show ?case by (rule exI [of _ "[]"], rule exI [of _ "{t}"], rule exI [of _ t])
      (simp add: path_ok_def endnode_def)
next
  case (Cons e es)
  note p = path_ok_pop [OF Cons.prems]
  show ?case
  proof (cases "es \<noteq> [] \<and> t = fst (snd (hd es))")
    case True
    show ?thesis
      by (rule exI [of _ es], rule exI [of _ "active - {fst (snd e)}"], rule exI [of _ base])
        (use True p in \<open>auto simp: endnode_def\<close>)
  next
    case False
    from Cons.IH [OF p(2)] obtain es' active' base' where
      "pop_until t es (active - {fst (snd e)}) = Inr (es', active')"
      "path_ok base' es' active'" "endnode base' es' = t" "set es' \<subseteq> set es" by blast
    then show ?thesis
      using False p(1)
      by (intro exI [of _ es'] exI [of _ active'] exI [of _ base']) auto
  qed
qed

lemma found_cycle:
  assumes "path_ok base es active" "endnode base es = fst e" "fst (snd e) \<in> active"
    and "\<forall>x \<in> set (e # es). is_edge G x"
  shows "cycle_in G (trim_cycle (fst (snd e)) (rev (e # es)))"
proof -
  let ?c = "rev (e # es)"
  have ch: "chain ?c"
    using assms(1,2) by (cases "es = []") (simp_all add: path_ok_def endnode_def chain_snoc last_rev)
  have hd: "fst (hd ?c) = base"
    using assms(1,2) by (cases "es = []") (simp_all add: path_ok_def endnode_def hd_append hd_rev)
  have "set (map fst ?c) = insert (fst (hd ?c)) (set (heads (butlast ?c)))"
    by (rule tails_of_chain [OF ch]) simp
  also have "\<dots> = insert base (set (heads es))"
    unfolding hd by (simp add: heads_def)
  also have "\<dots> = active" using assms(1) by (simp add: path_ok_def)
  finally have "fst (snd e) \<in> set (map fst ?c)" using assms(3) by simp
  from trim_cycle_props [OF ch this] assms(4) show ?thesis
    by (auto simp: cycle_in_def list_all_iff)
qed

lemma trim_cycle_suffix: "\<exists>pre. c = pre @ trim_cycle f c"
proof (induction f c rule: trim_cycle.induct)
  case (3 f e e' es)
  show ?case
  proof (cases "fst e = f")
    case True
    then show ?thesis by simp
  next
    case False
    with "3.IH" obtain pre where "e' # es = pre @ trim_cycle f (e' # es)" by auto
    then have "e # e' # es = (e # pre) @ trim_cycle f (e # e' # es)" using False by simp
    then show ?thesis by blast
  qed
qed simp_all

lemma heads_of_chain:
  "chain r \<Longrightarrow> r \<noteq> [] \<Longrightarrow> heads r = tl (map fst r) @ [fst (snd (last r))]"
  by (induction r rule: chain.induct) auto

lemma tails_list_of_chain:
  "chain c \<Longrightarrow> c \<noteq> [] \<Longrightarrow> map fst c = fst (hd c) # heads (butlast c)"
  by (induction c rule: chain.induct) auto

lemma found_cycle_simple:
  assumes "path_ok base es active" "endnode base es = fst e" "fst (snd e) \<in> active"
  shows "distinct (heads (trim_cycle (fst (snd e)) (rev (e # es))))"
proof -
  let ?c = "rev (e # es)"
  let ?r = "trim_cycle (fst (snd e)) ?c"
  have ch: "chain ?c"
    using assms(1,2) by (cases "es = []") (simp_all add: path_ok_def endnode_def chain_snoc last_rev)
  have hd: "fst (hd ?c) = base"
    using assms(1,2) by (cases "es = []") (simp_all add: path_ok_def endnode_def hd_append hd_rev)
  have tl: "map fst ?c = base # rev (heads es)"
    using tails_list_of_chain [OF ch] hd by (simp add: heads_def rev_map)
  then have d: "distinct (map fst ?c)" using assms(1) by (simp add: path_ok_def)
  have "set (map fst ?c) = active" unfolding tl using assms(1) by (simp add: path_ok_def)
  then have m: "fst (snd e) \<in> set (map fst ?c)" using assms(3) by simp
  note t = trim_cycle_props [OF ch m]
  obtain pre where pre: "?c = pre @ ?r" using trim_cycle_suffix [of ?c "fst (snd e)"] ..
  have "map fst ?c = map fst (pre @ ?r)" by (rule arg_cong [OF pre])
  then have "map fst ?c = map fst pre @ map fst ?r" by (simp only: map_append)
  with d have dr: "distinct (map fst ?r)" by (simp only: distinct_append)
  define ts where "ts = tl (map fst ?r)"
  have h: "heads ?r = ts @ [fst (snd (last ?r))]"
    unfolding ts_def using heads_of_chain t by blast
  have l: "fst (snd (last ?r)) = fst (snd e)" using t by simp
  have "map fst ?r = fst (snd e) # ts"
    unfolding ts_def using t by (cases ?r) auto
  with dr have "distinct (fst (snd e) # ts)" by simp
  then show ?thesis unfolding h l by auto
qed

lemma scan_step:
  assumes inv: "scan_inv s explored xs es active prev"
    and cl: "closed_under G explored"
    and e: "is_edge G e" "fst (snd e) \<notin> explored" "fst e \<in> insert s (set (heads xs))"
  shows "\<exists>es' active' base.
           (if prev \<noteq> None \<and> Some (fst e) \<noteq> prev
            then pop_until (fst e) es active else Inr (es, active)) = Inr (es', active')
           \<and> path_ok base es' active' \<and> endnode base es' = fst e \<and> set es' \<subseteq> set es"
proof (cases "es = []")
  case True
  with inv have i: "prev = None" "active = {s}" "set (heads xs) \<subseteq> explored"
    by (auto simp: scan_inv_def)
  have "fst e \<notin> explored" using cl e(1,2) unfolding closed_under_def by blast
  with e(3) i(3) have "fst e = s" by auto
  then show ?thesis
    using True i
    by (intro exI [of _ "[]"] exI [of _ "{s}"] exI [of _ s]) (simp add: path_ok_def endnode_def)
next
  case False
  with inv obtain base where i: "prev = Some (fst (snd (hd es)))" "path_ok base es active"
    by (auto simp: scan_inv_def)
  show ?thesis
  proof (cases "fst e = fst (snd (hd es))")
    case True
    then show ?thesis
      using False i
      by (intro exI [of _ es] exI [of _ active] exI [of _ base]) (simp add: endnode_def)
  next
    case ne: False
    from pop_until_ok [OF i(2), of "fst e"] obtain es' active' base' where
      "pop_until (fst e) es active = Inr (es', active')"
      "path_ok base' es' active'" "endnode base' es' = fst e" "set es' \<subseteq> set es" by blast
    then show ?thesis
      using ne i(1)
      by (intro exI [of _ es'] exI [of _ active'] exI [of _ base']) auto
  qed
qed

lemma tails_okD: "tails_ok s (xs @ e # rest) \<Longrightarrow> fst e \<in> insert s (set (heads xs))"
  unfolding tails_ok_def by blast

lemma cycle_scan_sound:
  assumes cl: "closed_under G explored"
  shows "tails_ok s (xs @ rest) \<Longrightarrow> \<forall>e \<in> set rest. is_edge G e \<Longrightarrow> \<forall>e \<in> set es. is_edge G e
    \<Longrightarrow> scan_inv s explored xs es active prev
    \<Longrightarrow> (\<forall>err. cycle_scan explored rest es seen active prev \<noteq> Inl err)
      \<and> (\<forall>c f. cycle_scan explored rest es seen active prev = Inr (Found c f)
            \<longrightarrow> cycle_in G (trim_cycle f c) \<and> distinct (heads (trim_cycle f c)))"
proof (induction rest arbitrary: xs es seen active prev)
  case Nil
  show ?case by simp
next
  case (Cons e rest)
  have t: "tails_ok s ((xs @ [e]) @ rest)" using Cons.prems(1) by simp
  have r: "\<forall>x \<in> set rest. is_edge G x" using Cons.prems(2) by simp
  have ie: "is_edge G e" using Cons.prems(2) by simp
  show ?case
  proof (cases "fst (snd e) \<in> explored")
    case True
    have "scan_inv s explored (xs @ [e]) es active prev"
      using Cons.prems(4) True by (auto simp: scan_inv_def)
    from Cons.IH [OF t r Cons.prems(3) this, of seen] show ?thesis
      using True by simp
  next
    case False
    from scan_step [OF Cons.prems(4) cl ie False tails_okD [OF Cons.prems(1)]]
    obtain es' active' base where
      p: "(if prev \<noteq> None \<and> Some (fst e) \<noteq> prev
            then pop_until (fst e) es active else Inr (es, active)) = Inr (es', active')"
      and ok: "path_ok base es' active'" and en: "endnode base es' = fst e"
      and sub: "set es' \<subseteq> set es" by blast
    have edges': "\<forall>x \<in> set (e # es'). is_edge G x"
      using ie sub Cons.prems(3) by auto
    show ?thesis
    proof (cases "fst (snd e) \<in> active'")
      case True
      have "cycle_scan explored (e # rest) es seen active prev
              = Inr (Found (rev (e # es')) (fst (snd e)))"
        using False True p by (simp add: Let_def)
      moreover have "cycle_in G (trim_cycle (fst (snd e)) (rev (e # es')))"
        by (rule found_cycle [OF ok en True edges'])
      moreover have "distinct (heads (trim_cycle (fst (snd e)) (rev (e # es'))))"
        by (rule found_cycle_simple [OF ok en True])
      ultimately show ?thesis by simp
    next
      case nf: False
      have eq: "cycle_scan explored (e # rest) es seen active prev
              = cycle_scan explored rest (e # es') (insert (fst (snd e)) seen)
                  (insert (fst (snd e)) active') (Some (fst (snd e)))"
        using False nf p by (simp add: Let_def)
      have "path_ok base (e # es') (insert (fst (snd e)) active')"
        by (rule path_ok_append [OF ok en nf])
      then have "scan_inv s explored (xs @ [e]) (e # es') (insert (fst (snd e)) active')
                   (Some (fst (snd e)))"
        by (auto simp: scan_inv_def)
      from Cons.IH [OF t r edges' this, of "insert (fst (snd e)) seen"] show ?thesis
        unfolding eq .
    qed
  qed
qed

lemma cycle_scan_seen:
  "cycle_scan explored rest es seen active prev = Inr (Exhausted seen')
   \<Longrightarrow> seen' = seen \<union> (set (heads rest) - explored)"
proof (induction rest arbitrary: es seen active prev)
  case Nil
  then show ?case by simp
next
  case (Cons e rest)
  show ?case
  proof (cases "fst (snd e) \<in> explored")
    case True
    then have "cycle_scan explored rest es seen active prev = Inr (Exhausted seen')"
      using Cons.prems by simp
    from Cons.IH [OF this] True show ?thesis by auto
  next
    case False
    then obtain es' active' where
      "cycle_scan explored rest (e # es') (insert (fst (snd e)) seen)
         (insert (fst (snd e)) active') (Some (fst (snd e))) = Inr (Exhausted seen')"
      using Cons.prems by (auto simp: Let_def split: sum.splits if_splits prod.splits)
    from Cons.IH [OF this] False show ?thesis by auto
  qed
qed

lemma edge_dfs_is_edge: "e \<in> set (edge_dfs G s) \<Longrightarrow> is_edge G e"
  unfolding edge_dfs_def by (rule edge_dfs_loop_is_edge)

lemma edge_dfs_tails_ok: "tails_ok s (edge_dfs G s)"
  unfolding tails_ok_def edge_dfs_def
proof (intro allI impI)
  fix ys e zs assume "edge_dfs_loop G [s] {} {} (\<lambda>_. 0) = ys @ e # zs"
  from edge_dfs_loop_tail [OF this] show "fst e \<in> insert s (set (heads ys))" by simp
qed

lemma is_edge_forward: "is_edge G e \<Longrightarrow> snd (snd e) = FORWARD"
  unfolding is_edge_def by (rule edges_from_D(2))

lemma edge_dfs_complete:
  assumes "fst e \<in> insert s (set (heads (edge_dfs G s)))" "is_edge G e"
  shows "e \<in> set (edge_dfs G s)"
proof -
  have c: "consumed G {} {} (\<lambda>_. 0)" by (simp add: consumed_def)
  have "fst e \<in> set [s] \<union> set (heads (edge_dfs_loop G [s] {} {} (\<lambda>_. 0)))"
    using assms(1) by (simp add: edge_dfs_def)
  from edge_dfs_loop_complete [OF c this]
  have "edge_id ` set (edges_from G (fst e)) \<subseteq> edge_id ` set (edge_dfs G s)"
    by (simp add: edge_dfs_def)
  moreover have "edge_id e \<in> edge_id ` set (edges_from G (fst e))"
    using assms(2) by (simp add: is_edge_def)
  ultimately obtain e' where e': "e' \<in> set (edge_dfs G s)" "edge_id e' = edge_id e" by auto
  have "snd (snd e') = FORWARD" using edge_dfs_is_edge [OF e'(1)] by (rule is_edge_forward)
  moreover have "snd (snd e) = FORWARD" using assms(2) by (rule is_edge_forward)
  ultimately have "e' = e" using e'(2) by (simp add: edge_id_def prod_eq_iff)
  with e'(1) show ?thesis by simp
qed

lemma closed_after_scan:
  assumes "closed_under G explored"
    and "cycle_scan explored (edge_dfs G s) [] {s} {s} None = Inr (Exhausted seen)"
  shows "closed_under G (explored \<union> seen)"
proof -
  have seen: "seen = {s} \<union> (set (heads (edge_dfs G s)) - explored)"
    by (rule cycle_scan_seen [OF assms(2)])
  show ?thesis
    unfolding closed_under_def
  proof (intro allI impI, elim conjE)
    fix e assume e: "is_edge G e" "fst e \<in> explored \<union> seen"
    show "fst (snd e) \<in> explored \<union> seen"
    proof (cases "fst e \<in> explored")
      case True
      then show ?thesis using assms(1) e(1) unfolding closed_under_def by blast
    next
      case False
      then have "fst e \<in> insert s (set (heads (edge_dfs G s)))" using e(2) seen by auto
      then have "e \<in> set (edge_dfs G s)" using e(1) by (rule edge_dfs_complete)
      then have "fst (snd e) \<in> set (heads (edge_dfs G s))" by (simp add: heads_def)
      then show ?thesis unfolding seen by auto
    qed
  qed
qed

lemma find_cycle_from_sound:
  "closed_under G explored \<Longrightarrow>
   (\<forall>err. find_cycle_from G explored ns = Inl err \<longrightarrow> err = NetworkXNoCycle)
   \<and> (\<forall>c. find_cycle_from G explored ns = Inr c \<longrightarrow> cycle_in G c \<and> distinct (heads c))"
proof (induction ns arbitrary: explored)
  case Nil
  show ?case by simp
next
  case (Cons s ns)
  show ?case
  proof (cases "s \<in> explored")
    case True
    then show ?thesis using Cons.IH [OF Cons.prems] by simp
  next
    case False
    have inv: "scan_inv s explored [] [] {s} None" by (simp add: scan_inv_def)
    have t: "tails_ok s ([] @ edge_dfs G s)" using edge_dfs_tails_ok [of s G] by simp
    have ie: "\<forall>e \<in> set (edge_dfs G s). is_edge G e" by (intro ballI) (rule edge_dfs_is_edge)
    have sound: "(\<forall>err. cycle_scan explored (edge_dfs G s) [] {s} {s} None \<noteq> Inl err)
      \<and> (\<forall>c f. cycle_scan explored (edge_dfs G s) [] {s} {s} None = Inr (Found c f)
            \<longrightarrow> cycle_in G (trim_cycle f c) \<and> distinct (heads (trim_cycle f c)))"
      by (rule cycle_scan_sound [OF Cons.prems t ie _ inv]) simp
    show ?thesis
    proof (cases "cycle_scan explored (edge_dfs G s) [] {s} {s} None")
      case (Inl err)
      with sound show ?thesis by blast
    next
      case (Inr res)
      show ?thesis
      proof (cases res)
        case (Found c f)
        with Inr sound have "cycle_in G (trim_cycle f c) \<and> distinct (heads (trim_cycle f c))"
          by blast
        then show ?thesis using False Inr Found by simp
      next
        case (Exhausted seen)
        have "cycle_scan explored (edge_dfs G s) [] {s} {s} None = Inr (Exhausted seen)"
          by (simp add: Inr Exhausted)
        then have "closed_under G (explored \<union> seen)"
          by (rule closed_after_scan [OF Cons.prems])
        from Cons.IH [OF this] show ?thesis using False Inr Exhausted by simp
      qed
    qed
  qed
qed

lemma find_cycle_sound:
  "(\<forall>err. find_cycle G = Inl err \<longrightarrow> err = NetworkXNoCycle)
   \<and> (\<forall>c. find_cycle G = Inr c \<longrightarrow> cycle_in G c \<and> distinct (heads c))"
  unfolding find_cycle_def by (rule find_cycle_from_sound) (simp add: closed_under_def)

lemma identify_circular_dependencies_cases:
  "identify_circular_dependencies G = Inr []
   \<or> (\<exists>c. identify_circular_dependencies G = Inr c \<and> cycle_in G c \<and> distinct (heads c))"
proof (cases "find_cycle G")
  case (Inl err)
  with find_cycle_sound [of G] have "err = NetworkXNoCycle" by blast
  with Inl show ?thesis by (simp add: identify_circular_dependencies_def)
next
  case (Inr c)
  with find_cycle_sound [of G] have "cycle_in G c \<and> distinct (heads c)" by blast
  with Inr show ?thesis by (simp add: identify_circular_dependencies_def)
qed

lemmas graph_eval = add_edge_def ensure_node_def store_key_def empty_graph_def
  find_cycle_def edge_dfs_def edges_from_def edge_id_def identify_circular_dependencies_def
  edge_dfs_loop.simps(2) Let_def

lemma find_cycle_triangle:
  assumes "a \<noteq> b" "b \<noteq> c" "a \<noteq> c" "nodes G = a # ns" "b \<in> set ns" "c \<in> set ns"
    "succ G a = [b]" "succ G b = [c]" "succ G c = [a]"
  shows "find_cycle G = Inr [(a, b, FORWARD), (b, c, FORWARD), (c, a, FORWARD)]"
  using assms
  by (auto simp: find_cycle_def edge_dfs_def edges_from_def edge_id_def edge_dfs_loop.simps(2) Let_def)

lemma singleton_list:
  assumes "distinct xs" "set xs = {x}"
  shows "xs = [x]"
proof (cases xs)
  case Nil
  with assms show ?thesis by simp
next
  case (Cons y ys)
  with assms have y: "y = x" and ys: "set ys \<subseteq> {x}" "x \<notin> set ys" by auto
  have "ys = []"
  proof (cases ys)
    case Nil
    then show ?thesis .
  next
    case (Cons z zs)
    then have "z \<in> set ys" by simp
    with ys(1) have "z = x" by blast
    with \<open>z \<in> set ys\<close> ys(2) show ?thesis by simp
  qed
  with Cons y show ?thesis by simp
qed

lemma triangle_graph_cycle:
  "identify_circular_dependencies triangle_graph
     = Inr [(''A'', ''B'', FORWARD), (''B'', ''C'', FORWARD), (''C'', ''A'', FORWARD)]"
  by (simp add: triangle_graph_def graph_eval)

lemma two_cycles_graph_cycle:
  "identify_circular_dependencies two_cycles_graph
     = Inr [(''a'', ''b'', FORWARD), (''b'', ''a'', FORWARD)]"
  by (simp add: two_cycles_graph_def graph_eval)

lemma one_edge_graph_cycle:
  "identify_circular_dependencies one_edge_graph = Inr []"
  by (simp add: one_edge_graph_def graph_eval)

lemma represents_triangle:
  assumes "distinct [a, b, c]" "represents G {(a, b), (b, c), (c, a)}"
  shows "find_cycle G = Inr [(a, b, FORWARD), (b, c, FORWARD), (c, a, FORWARD)]
       \<or> find_cycle G = Inr [(b, c, FORWARD), (c, a, FORWARD), (a, b, FORWARD)]
       \<or> find_cycle G = Inr [(c, a, FORWARD), (a, b, FORWARD), (b, c, FORWARD)]"
proof -
  have d: "distinct (nodes G)" and n: "set (nodes G) = {a, b, c}"
    and s: "\<And>u. distinct (succ G u)" "\<And>u. set (succ G u) = {v. (u, v) \<in> {(a, b), (b, c), (c, a)}}"
    using assms(2) by (auto simp: represents_def)
  have abc: "a \<noteq> b" "b \<noteq> c" "a \<noteq> c" using assms(1) by auto
  have sa: "succ G a = [b]" by (rule singleton_list [OF s(1)]) (use abc s(2) [of a] in auto)
  have sb: "succ G b = [c]" by (rule singleton_list [OF s(1)]) (use abc s(2) [of b] in auto)
  have sc: "succ G c = [a]" by (rule singleton_list [OF s(1)]) (use abc s(2) [of c] in auto)
  obtain h ns where h: "nodes G = h # ns" using n by (cases "nodes G") auto
  then have hn: "h \<notin> set ns" "insert h (set ns) = {a, b, c}" using d n by auto
  from hn have "h = a \<or> h = b \<or> h = c" by blast
  then show ?thesis
  proof (elim disjE)
    assume "h = a"
    then have "b \<in> set ns" "c \<in> set ns" using hn abc by auto
    from find_cycle_triangle [OF abc(1,2,3) h [unfolded \<open>h = a\<close>] this sa sb sc]
    show ?thesis by simp
  next
    assume "h = b"
    then have "c \<in> set ns" "a \<in> set ns" using hn abc by auto
    from find_cycle_triangle [OF abc(2) abc(3) [symmetric] abc(1) [symmetric]
        h [unfolded \<open>h = b\<close>] this sb sc sa]
    show ?thesis by simp
  next
    assume "h = c"
    then have "a \<in> set ns" "b \<in> set ns" using hn abc by auto
    from find_cycle_triangle [OF abc(3) [symmetric] abc(1) abc(2) [symmetric]
        h [unfolded \<open>h = c\<close>] this sc sa sb]
    show ?thesis by simp
  qed
qed

lemma draw_insights_Inr:
  "identify_circular_dependencies G = Inr cyc \<Longrightarrow>
   draw_insights G = Inr (join [LF] (insight_lines G (identify_critical_nodes G) cyc))"
  by (simp add: draw_insights_def)

text \<open>
  Claim C3. For a graph whose edges are exactly \<open>a \<rightarrow> b\<close>, \<open>b \<rightarrow> c\<close>, \<open>c \<rightarrow> a\<close> on three
  different nodes, \<open>identify_circular_dependencies\<close> returns one list of three edges
  that is a cycle of the graph and whose set is exactly these three edges (in an order
  that depends on the node order), and the summary lists these edges in its last line.
\<close>

theorem triangle_reports_one_cycle:
  assumes "distinct [a, b, c]" "represents G {(a, b), (b, c), (c, a)}"
  shows "\<exists>cyc. identify_circular_dependencies G = Inr cyc
           \<and> set cyc = {(a, b, FORWARD), (b, c, FORWARD), (c, a, FORWARD)}
           \<and> length cyc = 3 \<and> cycle_in G cyc
           \<and> draw_insights G = Inr (join [LF] (insight_lines G (identify_critical_nodes G) cyc))
           \<and> last (insight_lines G (identify_critical_nodes G) cyc)
               = ''Circular dependencies: '' @ join '', '' (map edge_text cyc)"
proof -
  from represents_triangle [OF assms] obtain cyc where
    f: "find_cycle G = Inr cyc"
    and c: "set cyc = {(a, b, FORWARD), (b, c, FORWARD), (c, a, FORWARD)}" "length cyc = 3"
    by (elim disjE) auto
  have i: "identify_circular_dependencies G = Inr cyc"
    using f by (simp add: identify_circular_dependencies_def)
  have "cycle_in G cyc" using find_cycle_sound [of G] f by blast
  moreover have "cyc \<noteq> []" using c(2) by auto
  ultimately show ?thesis
    using i c draw_insights_Inr [OF i]
    by (intro exI [of _ cyc]) (simp add: insight_lines_def)
qed

lemma triangle_graph_represents:
  "represents triangle_graph {(''A'', ''B''), (''B'', ''C''), (''C'', ''A'')}"
  using represents_built [of "[(''A'', ''B''), (''B'', ''C''), (''C'', ''A'')]"]
  by (simp add: triangle_graph_def)

lemma triangle_graph_summary:
  "draw_insights triangle_graph = Inr (join [LF]
      [''Insights about the codebase:'',
       ''Total number of nodes (files and imports): 3'',
       ''Total number of edges (dependencies): 3'',
       ''Number of critical nodes (frequently imported): 0'',
       ''Critical nodes: '',
       ''Number of circular dependencies: 3'',
       ''Circular dependencies: A -> B, B -> C, C -> A''])"
proof -
  have "number_of_nodes triangle_graph = 3" "number_of_edges triangle_graph = 3"
    "identify_critical_nodes triangle_graph = []"
    by (simp_all add: triangle_graph_def number_of_nodes_def number_of_edges_def
        identify_critical_nodes_def in_degree_def add_edge_def ensure_node_def store_key_def
        empty_graph_def)
  then show ?thesis
    by (simp add: draw_insights_Inr [OF triangle_graph_cycle] insight_lines_def edge_text_def
        str_nat.simps)
qed

theorem triangle_reports_one_cycle_witness:
  "identify_circular_dependencies triangle_graph
     = Inr [(''A'', ''B'', FORWARD), (''B'', ''C'', FORWARD), (''C'', ''A'', FORWARD)]
   \<and> draw_insights triangle_graph = Inr (join [LF]
      [''Insights about the codebase:'',
       ''Total number of nodes (files and imports): 3'',
       ''Total number of edges (dependencies): 3'',
       ''Number of critical nodes (frequently imported): 0'',
       ''Critical nodes: '',
       ''Number of circular dependencies: 3'',
       ''Circular dependencies: A -> B, B -> C, C -> A''])"
proof -
  have d: "distinct [''A'', ''B'', ''C'']" by simp
  from triangle_reports_one_cycle [OF d triangle_graph_represents] obtain cyc where
    "identify_circular_dependencies triangle_graph = Inr cyc" "length cyc = 3" by blast
  then show ?thesis by (simp add: triangle_graph_cycle triangle_graph_summary)
qed

text \<open>
  Claim C4. On every graph \<open>identify_circular_dependencies\<close> returns a list and no
  error. The list is empty, or it is the edge list of one cycle of the graph that passes
  through no node twice, never several cycles. When the graph has no cycle the list is
  empty.
\<close>

theorem cycle_detection_one_or_none:
  "(\<exists>c. identify_circular_dependencies G = Inr c
        \<and> (c = [] \<or> cycle_in G c \<and> distinct (heads c)))
   \<and> (\<not> has_cycle G \<longrightarrow> identify_circular_dependencies G = Inr [])"
proof -
  from identify_circular_dependencies_cases [of G]
  have 1: "\<exists>c. identify_circular_dependencies G = Inr c
        \<and> (c = [] \<or> cycle_in G c \<and> distinct (heads c))" by blast
  then have "\<not> has_cycle G \<longrightarrow> identify_circular_dependencies G = Inr []"
    unfolding has_cycle_def by blast
  with 1 show ?thesis by blast
qed

lemma one_edge_graph_edges:
  "is_edge one_edge_graph e \<Longrightarrow> e = (''a.py'', ''os'', FORWARD)"
  by (auto simp: is_edge_def edges_from_def one_edge_graph_def add_edge_def ensure_node_def
      store_key_def empty_graph_def split: if_splits)

lemma one_edge_graph_acyclic: "\<not> has_cycle one_edge_graph"
proof
  assume "has_cycle one_edge_graph"
  then obtain c where c: "c \<noteq> []" "list_all (is_edge one_edge_graph) c"
    "fst (snd (last c)) = fst (hd c)"
    by (auto simp: has_cycle_def cycle_in_def)
  then have "is_edge one_edge_graph (hd c)" "is_edge one_edge_graph (last c)"
    by (auto simp: list_all_iff)
  then have "hd c = (''a.py'', ''os'', FORWARD)" "last c = (''a.py'', ''os'', FORWARD)"
    by (auto dest: one_edge_graph_edges)
  with c(3) show False by simp
qed

theorem cycle_detection_one_or_none_witness:
  "\<not> has_cycle one_edge_graph
   \<and> identify_circular_dependencies one_edge_graph = Inr []
   \<and> identify_circular_dependencies two_cycles_graph
       = Inr [(''a'', ''b'', FORWARD), (''b'', ''a'', FORWARD)]
   \<and> cycle_in two_cycles_graph [(''a'', ''b'', FORWARD), (''b'', ''a'', FORWARD)]
   \<and> cycle_in two_cycles_graph [(''c'', ''d'', FORWARD), (''d'', ''c'', FORWARD)]"
proof -
  from cycle_detection_one_or_none [of one_edge_graph] one_edge_graph_acyclic
  have "identify_circular_dependencies one_edge_graph = Inr []" by blast
  moreover have "cycle_in two_cycles_graph [(''a'', ''b'', FORWARD), (''b'', ''a'', FORWARD)]"
    "cycle_in two_cycles_graph [(''c'', ''d'', FORWARD), (''d'', ''c'', FORWARD)]"
    by (simp_all add: cycle_in_def is_edge_def edges_from_def two_cycles_graph_def add_edge_def
        ensure_node_def store_key_def empty_graph_def)
  ultimately show ?thesis
    using one_edge_graph_acyclic two_cycles_graph_cycle by simp
qed

text \<open>
  Claim C10. When a cycle is found, the line \<open>Number of circular dependencies\<close> of the
  summary prints the length of the edge list of the one cycle found, which is the number
  of entries the following line prints; for the cycle of three edges it prints 3.
\<close>

theorem circular_count_is_edge_count:
  assumes "identify_circular_dependencies G = Inr cyc" "cyc \<noteq> []"
  shows "draw_insights G = Inr (join [LF] (insight_lines G (identify_critical_nodes G) cyc))
     \<and> length (insight_lines G (identify_critical_nodes G) cyc) = 7
     \<and> insight_lines G (identify_critical_nodes G) cyc ! 5
         = ''Number of circular dependencies: '' @ str_nat (length cyc)
     \<and> insight_lines G (identify_critical_nodes G) cyc ! 6
         = ''Circular dependencies: '' @ join '', '' (map edge_text cyc)
     \<and> length (map edge_text cyc) = length cyc
     \<and> cycle_in G cyc \<and> distinct (heads cyc)"
proof -
  from identify_circular_dependencies_cases [of G] assms
  have "cycle_in G cyc \<and> distinct (heads cyc)" by auto
  then show ?thesis
    using assms draw_insights_Inr [OF assms(1)] by (simp add: insight_lines_def)
qed

theorem circular_count_is_edge_count_witness:
  "identify_circular_dependencies triangle_graph
     = Inr [(''A'', ''B'', FORWARD), (''B'', ''C'', FORWARD), (''C'', ''A'', FORWARD)]
   \<and> insight_lines triangle_graph (identify_critical_nodes triangle_graph)
        [(''A'', ''B'', FORWARD), (''B'', ''C'', FORWARD), (''C'', ''A'', FORWARD)] ! 5
       = ''Number of circular dependencies: 3''
   \<and> insight_lines triangle_graph (identify_critical_nodes triangle_graph)
        [(''A'', ''B'', FORWARD), (''B'', ''C'', FORWARD), (''C'', ''A'', FORWARD)] ! 6
       = ''Circular dependencies: A -> B, B -> C, C -> A''"
proof -
  have ne: "[(''A'', ''B'', FORWARD), (''B'', ''C'', FORWARD), (''C'', ''A'', FORWARD)] \<noteq> []"
    by simp
  from circular_count_is_edge_count [OF triangle_graph_cycle ne] show ?thesis
    by (simp add: triangle_graph_cycle edge_text_def str_nat.simps)
qed

end
